theory Spec2Isabelle
  imports Main "HOL-Library.Word" "HOL-Library.FSet"
begin

unbundle bit_operations_syntax

section \<open>The decoder of noms values (go/types/value_decoder.go)\<close>

text \<open>
  The Go file decodes a typed value from a byte buffer.  Every method of
  \<^verbatim>\<open>valueDecoder\<close> is embedded as a function from the decoder state to
  either an error (a Go panic) or a result and the next state.
\<close>

subsection \<open>Panics and sequencing\<close>

text \<open>
  \<^verbatim>\<open>EOF\<close>: a read past the end of the buffer; \<^verbatim>\<open>ChkFail\<close>: a failed
  \<^verbatim>\<open>d.Chk\<close> assertion; \<^verbatim>\<open>TypeAssertion\<close>: a failed Go type assertion
  \<^verbatim>\<open>x.(T)\<close>; \<^verbatim>\<open>NotReachable\<close>: the final panic of \<^verbatim>\<open>readValue\<close>;
  \<^verbatim>\<open>OutOfFuel\<close>: the recursion bound of the model was hit (never the case for
  the bound the model uses, see \<open>readType_fuel\<close> and \<open>readValue_fuel\<close>).
\<close>

datatype error = EOF | ChkFail | TypeAssertion | NotReachable | OutOfFuel

definition pure :: "'a \<Rightarrow> 's \<Rightarrow> error + 'a \<times> 's" where
  "pure x s = Inr (x, s)"

definition throw :: "error \<Rightarrow> 's \<Rightarrow> error + 'a \<times> 's" where
  "throw e s = Inl e"

definition bind :: "('s \<Rightarrow> error + 'a \<times> 's) \<Rightarrow> ('a \<Rightarrow> 's \<Rightarrow> error + 'b \<times> 's) \<Rightarrow> 's \<Rightarrow> error + 'b \<times> 's" where
  "bind m f s = (case m s of Inl e \<Rightarrow> Inl e | Inr (x, s') \<Rightarrow> f x s')"

text \<open>
  \<^verbatim>\<open>for i := uint32(0); i < count; i++ { body }\<close> with the loop-carried
  variables \<open>acc\<close>; a panic in the body leaves the loop.
\<close>

fun forLoop :: "nat \<Rightarrow> ('a \<Rightarrow> 's \<Rightarrow> error + 'a \<times> 's) \<Rightarrow> 'a \<Rightarrow> 's \<Rightarrow> error + 'a \<times> 's" where
  "forLoop 0 body acc s = Inr (acc, s)"
| "forLoop (Suc k) body acc s =
     (case body acc s of Inl e \<Rightarrow> Inl e | Inr (acc', s') \<Rightarrow> forLoop k body acc' s')"

subsection \<open>The byte cursor\<close>

type_synonym byte = "8 word"
type_synonym gostring = "byte list"
type_synonym hash = "byte list"

record nomsReader =
  buff :: "byte list"
  offset :: nat

text \<open>
  Modelled from the spec: the \<^verbatim>\<open>nomsReader\<close> (the primitive byte cursor) is
  not in value_decoder.go.  The spec lists its operations: fixed-width
  unsigned integers, a one-byte boolean (zero / nonzero), length-prefixed
  byte runs and strings, a fixed-width digest of 20 bytes, and
  \<^verbatim>\<open>pos\<close> / \<^verbatim>\<open>seek\<close>.  A read past the end of the buffer is the panic
  \<open>EOF\<close>.  Integers are taken most significant byte first and lengths are
  32-bit; no theorem below depends on either choice.  A number is carried
  as the 64 bits of its encoding.
\<close>

definition readRaw :: "nat \<Rightarrow> 'a nomsReader_scheme \<Rightarrow> error + byte list \<times> 'a nomsReader_scheme" where
  "readRaw n r =
     (if offset r + n \<le> length (buff r)
      then Inr (take n (drop (offset r) (buff r)), r\<lparr>offset := offset r + n\<rparr>)
      else Inl EOF)"

definition beWord :: "byte list \<Rightarrow> 'w::len word" where
  "beWord bs = foldl (\<lambda>acc b. push_bit 8 acc OR ucast b) 0 bs"

definition readUint8 :: "'a nomsReader_scheme \<Rightarrow> error + byte \<times> 'a nomsReader_scheme" where
  "readUint8 = bind (readRaw 1) (\<lambda>bs. pure (beWord bs))"

definition readUint32 :: "'a nomsReader_scheme \<Rightarrow> error + 32 word \<times> 'a nomsReader_scheme" where
  "readUint32 = bind (readRaw 4) (\<lambda>bs. pure (beWord bs))"

definition readUint64 :: "'a nomsReader_scheme \<Rightarrow> error + 64 word \<times> 'a nomsReader_scheme" where
  "readUint64 = bind (readRaw 8) (\<lambda>bs. pure (beWord bs))"

definition readBool :: "'a nomsReader_scheme \<Rightarrow> error + bool \<times> 'a nomsReader_scheme" where
  "readBool = bind readUint8 (\<lambda>b. pure (b \<noteq> 0))"

definition readBytes :: "'a nomsReader_scheme \<Rightarrow> error + byte list \<times> 'a nomsReader_scheme" where
  "readBytes = bind readUint32 (\<lambda>size. readRaw (unat size))"

definition readString :: "'a nomsReader_scheme \<Rightarrow> error + gostring \<times> 'a nomsReader_scheme" where
  "readString = readBytes"

definition readHash :: "'a nomsReader_scheme \<Rightarrow> error + hash \<times> 'a nomsReader_scheme" where
  "readHash = readRaw 20"

definition readNumber :: "'a nomsReader_scheme \<Rightarrow> error + 64 word \<times> 'a nomsReader_scheme" where
  "readNumber = readUint64"

definition pos :: "'a nomsReader_scheme \<Rightarrow> nat" where
  "pos r = offset r"

definition seek :: "nat \<Rightarrow> 'a nomsReader_scheme \<Rightarrow> 'a nomsReader_scheme" where
  "seek p r = r\<lparr>offset := p\<rparr>"

subsection \<open>Kinds and types\<close>

text \<open>
  Modelled from the spec: the \<^verbatim>\<open>NomsKind\<close> constants, \<^verbatim>\<open>IsPrimitiveKind\<close>,
  \<^verbatim>\<open>MakePrimitiveType\<close>, \<^verbatim>\<open>Type\<close> and its descriptors are declared outside
  value_decoder.go.  The spec's glossary names the thirteen kinds; a tag
  byte outside them is \<open>UnknownKind\<close>.  The primitive kinds are the kinds
  that are neither compound (list, map, ref, set), struct, union nor cycle.
  A \<open>Type\<close> is a descriptor and the id of the instance (the integer index
  the spec's design notes ask for); a primitive type is a fixed instance.
  A type cannot hold itself as a value, so a cycle placeholder that was
  resolved is \<open>ResolvedDesc\<close>: it keeps the level the placeholder had, and the
  id beside it is the id of the struct instance it now stands for (the
  reference "by index" of the design notes).  Its kind is the kind of that
  instance.
\<close>

datatype NomsKind = BoolKind | NumberKind | StringKind | BlobKind | ValueKind
  | ListKind | MapKind | RefKind | SetKind | StructKind | TypeKind | CycleKind | UnionKind
  | UnknownKind byte

definition NomsKind_of :: "byte \<Rightarrow> NomsKind" where
  "NomsKind_of b =
     (if b = 0 then BoolKind else if b = 1 then NumberKind else if b = 2 then StringKind
      else if b = 3 then BlobKind else if b = 4 then ValueKind else if b = 5 then ListKind
      else if b = 6 then MapKind else if b = 7 then RefKind else if b = 8 then SetKind
      else if b = 9 then StructKind else if b = 10 then TypeKind else if b = 11 then CycleKind
      else if b = 12 then UnionKind else UnknownKind b)"

fun kindNum :: "NomsKind \<Rightarrow> nat" where
  "kindNum BoolKind = 0" | "kindNum NumberKind = 1" | "kindNum StringKind = 2"
| "kindNum BlobKind = 3" | "kindNum ValueKind = 4" | "kindNum ListKind = 5"
| "kindNum MapKind = 6" | "kindNum RefKind = 7" | "kindNum SetKind = 8"
| "kindNum StructKind = 9" | "kindNum TypeKind = 10" | "kindNum CycleKind = 11"
| "kindNum UnionKind = 12" | "kindNum (UnknownKind b) = unat b"

fun IsPrimitiveKind :: "NomsKind \<Rightarrow> bool" where
  "IsPrimitiveKind BoolKind = True"
| "IsPrimitiveKind NumberKind = True"
| "IsPrimitiveKind StringKind = True"
| "IsPrimitiveKind BlobKind = True"
| "IsPrimitiveKind ValueKind = True"
| "IsPrimitiveKind TypeKind = True"
| "IsPrimitiveKind _ = False"

datatype 't TypeDesc = PrimitiveDesc NomsKind | CompoundDesc NomsKind "'t list"
  | StructDesc gostring "(gostring \<times> 't) list" | CycleDesc "32 word" | ResolvedDesc "32 word"

datatype Type = Type (Desc: "Type TypeDesc") (id_t: nat)

definition Kind :: "Type \<Rightarrow> NomsKind" where
  "Kind t = (case Desc t of PrimitiveDesc k \<Rightarrow> k | CompoundDesc k ts \<Rightarrow> k
     | StructDesc n fs \<Rightarrow> StructKind | CycleDesc l \<Rightarrow> CycleKind
     | ResolvedDesc l \<Rightarrow> StructKind)"

definition MakePrimitiveType :: "NomsKind \<Rightarrow> Type" where
  "MakePrimitiveType k = Type (PrimitiveDesc k) (kindNum k)"

subsection \<open>The type cache\<close>

text \<open>
  Modelled from the spec: \<^verbatim>\<open>TypeCache\<close>, its tries and \<^verbatim>\<open>getCompoundType\<close>,
  \<^verbatim>\<open>getCycleType\<close>, \<^verbatim>\<open>makeStructType\<close> and \<^verbatim>\<open>readIdent\<close> are not in
  value_decoder.go.  The spec: the cache returns the canonical instance for
  (kind, components), and for a union for the deduplicated component set:
  "if an equal compound type already exists, return it; else intern and
  return the new instance"; the struct shape trie is "a prefix tree keyed by
  the token sequence (structName, field1Name, field1TypeKey, ...), mapping a
  fully-consumed token path to the canonical struct Type", built
  incrementally and never shrinking; a cycle placeholder carries its level,
  "the type currently under construction, N enclosing frames up", and "once
  the enclosing type finishes building, replace all such pending
  placeholders it produced with the real, now-available instance".

  A trie node is named by the path of tokens that leads to it from the root
  of its kind, so \<open>Traverse\<close> extends the path and the type stored at a node
  is looked up in the cache's entries.  An identifier token is the
  identifier itself.  Ids of interned types start above the kind tags.
  The members of a union are kept without duplicates, in the order of their
  ids.  The decoder keeps no stack of its own (\<^verbatim>\<open>readType\<close> only calls
  \<^verbatim>\<open>getCycleType\<close> and \<^verbatim>\<open>makeStructType\<close>), so the back-patching is done
  where the struct is finished, in \<open>makeStructType\<close>: \<open>resolve i d\<close> replaces,
  in a field type, every placeholder whose level is the number \<open>d\<close> of
  structs between it and the new struct by the reference to the new
  instance \<open>i\<close>.  A placeholder of a higher level waits for the struct that far
  up; the trie is keyed by the field types as they were read.
\<close>

datatype token = Ident gostring | Num nat

type_synonym typeTrie = "NomsKind \<times> token list"

record TypeCache =
  entries :: "(typeTrie \<times> Type) list"
  nextId :: nat

definition newTypeCache :: TypeCache where
  "newTypeCache = \<lparr>entries = [], nextId = 256\<rparr>"

definition trieRoots :: "NomsKind \<Rightarrow> typeTrie" where
  "trieRoots k = (k, [])"

fun Traverse :: "typeTrie \<Rightarrow> token \<Rightarrow> typeTrie" where
  "Traverse (k, p) tok = (k, p @ [tok])"

definition trie_t :: "TypeCache \<Rightarrow> typeTrie \<Rightarrow> Type option" where
  "trie_t c trie = map_of (entries c) trie"

definition intern :: "typeTrie \<Rightarrow> Type TypeDesc \<Rightarrow> TypeCache \<Rightarrow> Type \<times> TypeCache" where
  "intern trie d c =
     (case trie_t c trie of
        Some t \<Rightarrow> (t, c)
      | None \<Rightarrow> (let t = Type d (nextId c)
                 in (t, c\<lparr>entries := (trie, t) # entries c, nextId := Suc (nextId c)\<rparr>)))"

definition elemTypes_of :: "NomsKind \<Rightarrow> Type list \<Rightarrow> Type list" where
  "elemTypes_of kind elemTypes =
     (if kind = UnionKind then sort_key id_t (remdups elemTypes) else elemTypes)"

definition getCompoundType :: "NomsKind \<Rightarrow> Type list \<Rightarrow> TypeCache \<Rightarrow> Type \<times> TypeCache" where
  "getCompoundType kind elemTypes c =
     (let ts = elemTypes_of kind elemTypes;
          trie = foldl (\<lambda>trie t. Traverse trie (Num (id_t t))) (trieRoots kind) ts
      in intern trie (CompoundDesc kind ts) c)"

definition getCycleType :: "32 word \<Rightarrow> TypeCache \<Rightarrow> Type \<times> TypeCache" where
  "getCycleType level c =
     intern (Traverse (trieRoots CycleKind) (Num (unat level))) (CycleDesc level) c"

fun resolve :: "nat \<Rightarrow> nat \<Rightarrow> Type \<Rightarrow> Type" where
  "resolve i d (Type desc j) =
     (case desc of
        PrimitiveDesc k \<Rightarrow> Type desc j
      | CompoundDesc k ts \<Rightarrow> Type (CompoundDesc k (map (resolve i d) ts)) j
      | StructDesc n fs \<Rightarrow> Type (StructDesc n (map (\<lambda>(f, t). (f, resolve i (Suc d) t)) fs)) j
      | CycleDesc l \<Rightarrow> if unat l = d then Type (ResolvedDesc l) i else Type desc j
      | ResolvedDesc l \<Rightarrow> Type desc j)"

definition makeStructType :: "gostring \<Rightarrow> gostring list \<Rightarrow> Type list \<Rightarrow> TypeCache \<Rightarrow> Type \<times> TypeCache" where
  "makeStructType name fieldNames fieldTypes c =
     (let fs = zip fieldNames fieldTypes;
          trie = foldl (\<lambda>trie (fn, ft). Traverse (Traverse trie (Ident fn)) (Num (id_t ft)))
                   (Traverse (trieRoots StructKind) (Ident name)) fs
      in intern trie (StructDesc name (map (\<lambda>(fn, ft). (fn, resolve (nextId c) 0 ft)) fs)) c)"

subsection \<open>Values\<close>

text \<open>
  Modelled from the spec: the value constructors (\<^verbatim>\<open>constructRef\<close>,
  \<^verbatim>\<open>newMetaTuple\<close>, \<^verbatim>\<open>orderedKeyFromHash\<close>, \<^verbatim>\<open>newOrderedKey\<close>, the leaf and
  meta sequences, \<^verbatim>\<open>newBlob\<close>, \<^verbatim>\<open>newList\<close>, \<^verbatim>\<open>newMap\<close>, \<^verbatim>\<open>newSet\<close>) are
  declared outside value_decoder.go; each is a constructor that stores its
  arguments.  The reference to the chunk-fetch collaborator that a sequence
  keeps is the decoder's own \<open>vr\<close> and is not repeated in the value.  The
  type of the types inside a value is a parameter, so that \<open>map_Value\<close>
  replaces every type of a value.
\<close>

datatype 'ty Ref = constructRef (refType: 'ty) (TargetHash: hash) (Height: "64 word")

datatype 'v orderedKey = orderedKeyFromHash hash | newOrderedKey 'v

datatype ('ty, 'v) metaTuple =
  newMetaTuple (ref: "'ty Ref") (key: "'v orderedKey") (numLeaves: "64 word") (child: "'v option")

datatype ('ty, 'v) sequence =
    blobLeafSequence "byte list"
  | listLeafSequence "'v list" 'ty
  | setLeafSequence "'v list" 'ty
  | mapLeafSequence "('v \<times> 'v) list" 'ty
  | newIndexedMetaSequence "('ty, 'v) metaTuple list" 'ty
  | newOrderedMetaSequence "('ty, 'v) metaTuple list" 'ty

datatype 'ty Value =
    Bool bool
  | Number "64 word"
  | String gostring
  | newBlob "('ty, 'ty Value) sequence"
  | newList "('ty, 'ty Value) sequence"
  | newMap "('ty, 'ty Value) sequence"
  | newSet "('ty, 'ty Value) sequence"
  | RefValue "'ty Ref"
  | Struct "'ty Value list" 'ty hash
  | TypeValue 'ty

text \<open>\<^verbatim>\<open>&hash.Hash{}\<close>: the zero digest, the mark of a digest not yet computed.\<close>

definition emptyHash :: hash where
  "emptyHash = replicate 20 0"

subsection \<open>The decoder state\<close>

text \<open>
  \<^verbatim>\<open>valueDecoder\<close> embeds the \<^verbatim>\<open>nomsReader\<close> and holds the chunk-fetch
  collaborator \<open>vr\<close> and the type cache \<open>tc\<close>.  The collaborator is
  represented by the list of the digests it was asked to fetch.
\<close>

record ValueReader =
  fetched :: "hash list"

text \<open>
  Modelled from the spec: the chunk-fetch interface (digest to bytes) is an
  external collaborator, "invoked only outside this core, during later
  traversal".  An invocation is recorded in the list; no method of
  value_decoder.go calls it.
\<close>

definition fetchChunk :: "hash \<Rightarrow> ValueReader \<Rightarrow> ValueReader" where
  "fetchChunk h v = v\<lparr>fetched := fetched v @ [h]\<rparr>"

record valueDecoder = nomsReader +
  vr :: ValueReader
  tc :: TypeCache

definition newValueDecoder :: "byte list \<Rightarrow> ValueReader \<Rightarrow> TypeCache \<Rightarrow> valueDecoder" where
  "newValueDecoder bs v c = \<lparr>buff = bs, offset = 0, vr = v, tc = c\<rparr>"

definition withCache :: "(TypeCache \<Rightarrow> 'a \<times> TypeCache) \<Rightarrow> valueDecoder \<Rightarrow> error + 'a \<times> valueDecoder" where
  "withCache f r = (case f (tc r) of (x, c) \<Rightarrow> Inr (x, r\<lparr>tc := c\<rparr>))"

definition readIdent :: "valueDecoder \<Rightarrow> error + token \<times> valueDecoder" where
  "readIdent = bind readString (\<lambda>s. pure (Ident s))"

definition readKind :: "valueDecoder \<Rightarrow> error + NomsKind \<times> valueDecoder" where
  "readKind = bind readUint8 (\<lambda>b. pure (NomsKind_of b))"

subsection \<open>Decoding types\<close>

text \<open>
  The methods that call \<^verbatim>\<open>readType\<close> take it as the argument \<open>rt\<close>;
  \<open>readTypeOfKind\<close> is the \<^verbatim>\<open>switch k\<close> of \<^verbatim>\<open>readType\<close>, and
  \<open>readType_f\<close> ties the knot with a bound on the nesting depth.
\<close>

definition readUnionType :: "(valueDecoder \<Rightarrow> error + Type \<times> valueDecoder) \<Rightarrow> valueDecoder \<Rightarrow> error + Type \<times> valueDecoder" where
  "readUnionType rt =
     bind readUint32 (\<lambda>l.
     bind (forLoop (unat l) (\<lambda>ts. bind rt (\<lambda>t. pure (ts @ [t]))) [])
       (\<lambda>ts. withCache (getCompoundType UnionKind ts)))"

definition readCachedStructType :: "(valueDecoder \<Rightarrow> error + Type \<times> valueDecoder) \<Rightarrow> valueDecoder \<Rightarrow> error + Type option \<times> valueDecoder" where
  "readCachedStructType rt =
     bind readIdent (\<lambda>name.
     bind readUint32 (\<lambda>count.
     bind (forLoop (unat count)
             (\<lambda>trie. bind readIdent (\<lambda>fn. bind rt (\<lambda>t.
                pure (Traverse (Traverse trie fn) (Num (id_t t))))))
             (Traverse (trieRoots StructKind) name))
       (\<lambda>trie r. Inr (trie_t (tc r) trie, r))))"

definition readStructTypeFull :: "(valueDecoder \<Rightarrow> error + Type \<times> valueDecoder) \<Rightarrow> valueDecoder \<Rightarrow> error + Type \<times> valueDecoder" where
  "readStructTypeFull rt =
     bind readString (\<lambda>name.
     bind readUint32 (\<lambda>count.
     bind (forLoop (unat count)
             (\<lambda>(fieldNames, fieldTypes). bind readString (\<lambda>fn. bind rt (\<lambda>ft.
                pure (fieldNames @ [fn], fieldTypes @ [ft]))))
             ([], []))
       (\<lambda>(fieldNames, fieldTypes). withCache (makeStructType name fieldNames fieldTypes))))"

definition readStructType :: "(valueDecoder \<Rightarrow> error + Type \<times> valueDecoder) \<Rightarrow> valueDecoder \<Rightarrow> error + Type \<times> valueDecoder" where
  "readStructType rt r =
     (let p = pos r in
      case readCachedStructType rt r of
        Inl e \<Rightarrow> Inl e
      | Inr (Some t, r') \<Rightarrow> Inr (t, r')
      | Inr (None, r') \<Rightarrow> readStructTypeFull rt (seek p r'))"

definition readTypeOfKind :: "(valueDecoder \<Rightarrow> error + Type \<times> valueDecoder) \<Rightarrow> NomsKind \<Rightarrow> valueDecoder \<Rightarrow> error + Type \<times> valueDecoder" where
  "readTypeOfKind rt k =
     (case k of
        ListKind \<Rightarrow> bind rt (\<lambda>t. withCache (getCompoundType ListKind [t]))
      | MapKind \<Rightarrow> bind rt (\<lambda>kt. bind rt (\<lambda>vt. withCache (getCompoundType MapKind [kt, vt])))
      | RefKind \<Rightarrow> bind rt (\<lambda>t. withCache (getCompoundType RefKind [t]))
      | SetKind \<Rightarrow> bind rt (\<lambda>t. withCache (getCompoundType SetKind [t]))
      | StructKind \<Rightarrow> readStructType rt
      | UnionKind \<Rightarrow> readUnionType rt
      | CycleKind \<Rightarrow> bind readUint32 (\<lambda>level. withCache (getCycleType level))
      | _ \<Rightarrow> if IsPrimitiveKind k then pure (MakePrimitiveType k) else throw ChkFail)"

primrec readType_f :: "nat \<Rightarrow> valueDecoder \<Rightarrow> error + Type \<times> valueDecoder" where
  "readType_f 0 r = Inl OutOfFuel"
| "readType_f (Suc n) r = bind readKind (readTypeOfKind (readType_f n)) r"

text \<open>
  Every level of nesting reads its kind tag first, so the depth is bounded
  by the number of bytes left.
\<close>

definition remaining :: "'a nomsReader_scheme \<Rightarrow> nat" where
  "remaining r = length (buff r) - offset r"

definition readType :: "valueDecoder \<Rightarrow> error + Type \<times> valueDecoder" where
  "readType r = readType_f (Suc (remaining r)) r"

subsection \<open>Decoding values\<close>

definition readRef :: "Type \<Rightarrow> valueDecoder \<Rightarrow> error + Type Ref \<times> valueDecoder" where
  "readRef t = bind readHash (\<lambda>h. bind readUint64 (\<lambda>height. pure (constructRef t h height)))"

definition readBlobLeafSequence :: "valueDecoder \<Rightarrow> error + (Type, Type Value) sequence \<times> valueDecoder" where
  "readBlobLeafSequence = bind readBytes (\<lambda>b. pure (blobLeafSequence b))"

definition readValueSequence :: "(valueDecoder \<Rightarrow> error + Type Value \<times> valueDecoder) \<Rightarrow> valueDecoder \<Rightarrow> error + Type Value list \<times> valueDecoder" where
  "readValueSequence rv =
     bind readUint32 (\<lambda>count.
       forLoop (unat count) (\<lambda>data. bind rv (\<lambda>v. pure (data @ [v]))) [])"

definition readListLeafSequence :: "(valueDecoder \<Rightarrow> error + Type Value \<times> valueDecoder) \<Rightarrow> Type \<Rightarrow> valueDecoder \<Rightarrow> error + (Type, Type Value) sequence \<times> valueDecoder" where
  "readListLeafSequence rv t = bind (readValueSequence rv) (\<lambda>data. pure (listLeafSequence data t))"

definition readSetLeafSequence :: "(valueDecoder \<Rightarrow> error + Type Value \<times> valueDecoder) \<Rightarrow> Type \<Rightarrow> valueDecoder \<Rightarrow> error + (Type, Type Value) sequence \<times> valueDecoder" where
  "readSetLeafSequence rv t = bind (readValueSequence rv) (\<lambda>data. pure (setLeafSequence data t))"

definition readMapLeafSequence :: "(valueDecoder \<Rightarrow> error + Type Value \<times> valueDecoder) \<Rightarrow> Type \<Rightarrow> valueDecoder \<Rightarrow> error + (Type, Type Value) sequence \<times> valueDecoder" where
  "readMapLeafSequence rv t =
     bind readUint32 (\<lambda>count.
     bind (forLoop (unat count)
             (\<lambda>data. bind rv (\<lambda>k. bind rv (\<lambda>v. pure (data @ [(k, v)])))) [])
       (\<lambda>data. pure (mapLeafSequence data t)))"

definition orderedKey_of :: "Type Value \<Rightarrow> Type Value orderedKey" where
  "orderedKey_of v = (case v of RefValue r \<Rightarrow> orderedKeyFromHash (TargetHash r) | _ \<Rightarrow> newOrderedKey v)"

definition readMetaTuple :: "(valueDecoder \<Rightarrow> error + Type Value \<times> valueDecoder) \<Rightarrow> valueDecoder \<Rightarrow> error + (Type, Type Value) metaTuple \<times> valueDecoder" where
  "readMetaTuple rv =
     bind rv (\<lambda>x. case x of
         RefValue ref' \<Rightarrow>
           bind rv (\<lambda>v.
           bind readUint64 (\<lambda>numLeaves.
             pure (newMetaTuple ref' (orderedKey_of v) numLeaves None)))
       | _ \<Rightarrow> throw TypeAssertion)"

definition readMetaSequence :: "(valueDecoder \<Rightarrow> error + Type Value \<times> valueDecoder) \<Rightarrow> valueDecoder \<Rightarrow> error + (Type, Type Value) metaTuple list \<times> valueDecoder" where
  "readMetaSequence rv =
     bind readUint32 (\<lambda>count.
       forLoop (unat count) (\<lambda>data. bind (readMetaTuple rv) (\<lambda>tup. pure (data @ [tup]))) [])"

definition readIndexedMetaSequence :: "(valueDecoder \<Rightarrow> error + Type Value \<times> valueDecoder) \<Rightarrow> Type \<Rightarrow> valueDecoder \<Rightarrow> error + (Type, Type Value) sequence \<times> valueDecoder" where
  "readIndexedMetaSequence rv t = bind (readMetaSequence rv) (\<lambda>data. pure (newIndexedMetaSequence data t))"

definition readOrderedMetaSequence :: "(valueDecoder \<Rightarrow> error + Type Value \<times> valueDecoder) \<Rightarrow> Type \<Rightarrow> valueDecoder \<Rightarrow> error + (Type, Type Value) sequence \<times> valueDecoder" where
  "readOrderedMetaSequence rv t = bind (readMetaSequence rv) (\<lambda>data. pure (newOrderedMetaSequence data t))"

definition readStruct :: "(valueDecoder \<Rightarrow> error + Type Value \<times> valueDecoder) \<Rightarrow> Type \<Rightarrow> valueDecoder \<Rightarrow> error + Type Value \<times> valueDecoder" where
  "readStruct rv t =
     (case Desc t of
        StructDesc name fs \<Rightarrow>
          bind (forLoop (length fs) (\<lambda>values. bind rv (\<lambda>v. pure (values @ [v]))) [])
            (\<lambda>values. pure (Struct values t emptyHash))
      | _ \<Rightarrow> throw TypeAssertion)"

definition readPayload :: "(valueDecoder \<Rightarrow> error + Type Value \<times> valueDecoder) \<Rightarrow> Type \<Rightarrow> valueDecoder \<Rightarrow> error + Type Value \<times> valueDecoder" where
  "readPayload rv t =
     (case Kind t of
        BlobKind \<Rightarrow> bind readBool (\<lambda>isMeta.
          if isMeta then bind (readIndexedMetaSequence rv t) (\<lambda>s. pure (newBlob s))
          else bind readBlobLeafSequence (\<lambda>s. pure (newBlob s)))
      | BoolKind \<Rightarrow> bind readBool (\<lambda>b. pure (Bool b))
      | NumberKind \<Rightarrow> bind readNumber (\<lambda>n. pure (Number n))
      | StringKind \<Rightarrow> bind readString (\<lambda>s. pure (String s))
      | ListKind \<Rightarrow> bind readBool (\<lambda>isMeta.
          if isMeta then bind (readIndexedMetaSequence rv t) (\<lambda>s. pure (newList s))
          else bind (readListLeafSequence rv t) (\<lambda>s. pure (newList s)))
      | MapKind \<Rightarrow> bind readBool (\<lambda>isMeta.
          if isMeta then bind (readOrderedMetaSequence rv t) (\<lambda>s. pure (newMap s))
          else bind (readMapLeafSequence rv t) (\<lambda>s. pure (newMap s)))
      | RefKind \<Rightarrow> bind (readRef t) (\<lambda>r. pure (RefValue r))
      | SetKind \<Rightarrow> bind readBool (\<lambda>isMeta.
          if isMeta then bind (readOrderedMetaSequence rv t) (\<lambda>s. pure (newSet s))
          else bind (readSetLeafSequence rv t) (\<lambda>s. pure (newSet s)))
      | StructKind \<Rightarrow> readStruct rv t
      | TypeKind \<Rightarrow> bind readType (\<lambda>t'. pure (TypeValue t'))
      | CycleKind \<Rightarrow> throw ChkFail
      | UnionKind \<Rightarrow> throw ChkFail
      | ValueKind \<Rightarrow> throw ChkFail
      | UnknownKind b \<Rightarrow> throw NotReachable)"

primrec readValue_f :: "nat \<Rightarrow> valueDecoder \<Rightarrow> error + Type Value \<times> valueDecoder" where
  "readValue_f 0 r = Inl OutOfFuel"
| "readValue_f (Suc n) r = bind readType (\<lambda>t. readPayload (readValue_f n) t) r"

definition readValue :: "valueDecoder \<Rightarrow> error + Type Value \<times> valueDecoder" where
  "readValue r = readValue_f (Suc (remaining r)) r"

subsection \<open>Digest text\<close>

text \<open>
  Modelled from the spec: \<^verbatim>\<open>Parse\<close>, the parser of the text form of a
  digest, is not under src/ (only its test \<^verbatim>\<open>TestParseError\<close> is).  The
  spec: the text form is the algorithm tag, a dash and 40 lowercase hex
  characters; sha1 is the one algorithm; "parsing fails on wrong algorithm
  tag, wrong digit count, or any non-hex digit".  The digest is the 20 bytes
  the digits spell.
\<close>

definition isHexDigit :: "char \<Rightarrow> bool" where
  "isHexDigit c = (c \<in> set ''0123456789abcdef'')"

definition hexValue :: "char \<Rightarrow> nat" where
  "hexValue c = (if c \<in> set ''0123456789'' then of_char c - 48 else of_char c - 87)"

fun hexBytes :: "string \<Rightarrow> byte list" where
  "hexBytes (a # b # cs) = of_nat (16 * hexValue a + hexValue b) # hexBytes cs"
| "hexBytes cs = []"

definition Parse :: "string \<Rightarrow> hash option" where
  "Parse s =
     (if take 5 s = ''sha1-'' \<and> length (drop 5 s) = 40 \<and> list_all isHexDigit (drop 5 s)
      then Some (hexBytes (drop 5 s)) else None)"

subsection \<open>Consecutive decodes\<close>

text \<open>\<open>repN n m\<close>: \<open>n\<close> runs of \<open>m\<close>, one after the other, and their results in order.\<close>

fun repN :: "nat \<Rightarrow> ('s \<Rightarrow> error + 'a \<times> 's) \<Rightarrow> 's \<Rightarrow> error + 'a list \<times> 's" where
  "repN 0 m s = Inr ([], s)"
| "repN (Suc n) m s =
     (case m s of Inl e \<Rightarrow> Inl e
      | Inr (x, s') \<Rightarrow> (case repN n m s' of Inl e \<Rightarrow> Inl e | Inr (xs, s'') \<Rightarrow> Inr (x # xs, s'')))"

subsection \<open>The structure of a type and the invariant of the cache\<close>



text \<open>
  The trie node of a descriptor (the node \<open>getCompoundType\<close>, \<open>getCycleType\<close>
  and \<open>makeStructType\<close> look up), and the types a cache has handed out: the
  fixed primitive instances and the types at its nodes.
\<close>

fun descNode :: "Type TypeDesc \<Rightarrow> typeTrie" where
  "descNode (PrimitiveDesc k) = trieRoots k"
| "descNode (CompoundDesc k ts) = foldl (\<lambda>trie t. Traverse trie (Num (id_t t))) (trieRoots k) ts"
| "descNode (StructDesc name fs) =
     foldl (\<lambda>trie (fn, ft). Traverse (Traverse trie (Ident fn)) (Num (id_t ft)))
       (Traverse (trieRoots StructKind) (Ident name)) fs"
| "descNode (CycleDesc l) = Traverse (trieRoots CycleKind) (Num (unat l))"
| "descNode (ResolvedDesc l) = trieRoots StructKind"

declare descNode.simps [simp del]






text \<open>The tokens of the fields of a struct, and the number of nodes of a type.\<close>

definition structToks :: "(gostring \<times> Type) list \<Rightarrow> token list" where
  "structToks fs = concat (map (\<lambda>(fn, ft). [Ident fn, Num (id_t ft)]) fs)"


text \<open>
  \<open>tc_same m\<close>: \<open>m\<close> leaves the cache as it is.  \<open>rt_ok rt\<close>: \<open>rt\<close> keeps the
  invariant, only grows the cache, and returns a type the cache has handed out.
\<close>

definition tc_same :: "(valueDecoder \<Rightarrow> error + 'a \<times> valueDecoder) \<Rightarrow> bool" where
  "tc_same m = (\<forall>r x r'. m r = Inr (x, r') \<longrightarrow> tc r' = tc r)"


section \<open>Properties of the decoder\<close>

subsection \<open>Rules for the combinators\<close>

definition post :: "error + 'a \<times> 's \<Rightarrow> ('a \<Rightarrow> 's \<Rightarrow> bool) \<Rightarrow> bool" where
  "post x Q = (case x of Inl e \<Rightarrow> True | Inr (a, s) \<Rightarrow> Q a s)"

definition keeps :: "('s \<Rightarrow> bool) \<Rightarrow> ('s \<Rightarrow> error + 'a \<times> 's) \<Rightarrow> bool" where
  "keeps P m = (\<forall>s. P s \<longrightarrow> post (m s) (\<lambda>a. P))"

lemma postD: "post x Q \<Longrightarrow> x = Inr (a, s) \<Longrightarrow> Q a s"
  by (simp add: post_def)

lemma keepsD: "keeps P m \<Longrightarrow> P s \<Longrightarrow> m s = Inr (a, s') \<Longrightarrow> P s'"
  by (auto simp: keeps_def post_def)

lemma keeps_pure: "keeps P (pure x)"
  by (simp add: keeps_def post_def pure_def)

lemma keeps_throw: "keeps P (throw e)"
  by (simp add: keeps_def post_def throw_def)

lemma keeps_bind:
  assumes m: "keeps P m" and f: "\<And>x. keeps P (f x)"
  shows "keeps P (bind m f)"
  unfolding keeps_def
proof (intro allI impI)
  fix s assume P: "P s"
  show "post (bind m f s) (\<lambda>a. P)"
  proof (cases "m s")
    case (Inl e)
    then show ?thesis by (simp add: bind_def post_def)
  next
    case (Inr p)
    obtain x s' where p: "p = (x, s')" by (cases p)
    from m P Inr p have "P s'" by (auto dest: keepsD)
    with f [of x] show ?thesis using Inr p by (simp add: bind_def keeps_def)
  qed
qed

lemma keeps_forLoop: "(\<And>acc. keeps P (body acc)) \<Longrightarrow> keeps P (forLoop k body acc)"
proof (induction k arbitrary: acc)
  case 0
  then show ?case by (simp add: keeps_def post_def)
next
  case (Suc k)
  show ?case
    unfolding keeps_def
  proof (intro allI impI)
    fix s assume P: "P s"
    show "post (forLoop (Suc k) body acc s) (\<lambda>a. P)"
    proof (cases "body acc s")
      case (Inl e)
      then show ?thesis by (simp add: post_def)
    next
      case (Inr p)
      obtain acc' s' where p: "p = (acc', s')" by (cases p)
      from Suc.prems P Inr p have "P s'" by (auto dest: keepsD)
      with Suc.IH [OF Suc.prems, of acc'] show ?thesis
        using Inr p by (simp add: keeps_def)
    qed
  qed
qed

lemma keeps_case_prod: "(\<And>a b. keeps P (f a b)) \<Longrightarrow> keeps P (case_prod f x)"
  by (cases x) simp

lemma keeps_if: "keeps P m \<Longrightarrow> keeps P m' \<Longrightarrow> keeps P (if b then m else m')"
  by simp

lemmas keeps_intros = keeps_bind keeps_pure keeps_throw keeps_forLoop keeps_case_prod keeps_if

subsection \<open>The cursor only moves forward\<close>

definition fwd :: "valueDecoder \<Rightarrow> valueDecoder \<Rightarrow> bool" where
  "fwd r0 r = (buff r = buff r0 \<and> vr r = vr r0 \<and> offset r0 \<le> offset r)"

lemma fwd_refl: "fwd r r"
  by (simp add: fwd_def)

lemma fwd_trans: "fwd a b \<Longrightarrow> fwd b c \<Longrightarrow> fwd a c"
  by (simp add: fwd_def)

lemma fwd_readRaw: "keeps (fwd r0) (readRaw n)"
  by (simp add: keeps_def post_def readRaw_def fwd_def)

lemma fwd_readUint8: "keeps (fwd r0) readUint8"
  unfolding readUint8_def by (intro keeps_intros fwd_readRaw)

lemma fwd_readUint32: "keeps (fwd r0) readUint32"
  unfolding readUint32_def by (intro keeps_intros fwd_readRaw)

lemma fwd_readUint64: "keeps (fwd r0) readUint64"
  unfolding readUint64_def by (intro keeps_intros fwd_readRaw)

lemma fwd_readBool: "keeps (fwd r0) readBool"
  unfolding readBool_def by (intro keeps_intros fwd_readUint8)

lemma fwd_readBytes: "keeps (fwd r0) readBytes"
  unfolding readBytes_def by (intro keeps_intros fwd_readUint32 fwd_readRaw)

lemma fwd_readString: "keeps (fwd r0) readString"
  unfolding readString_def by (rule fwd_readBytes)

lemma fwd_readHash: "keeps (fwd r0) readHash"
  unfolding readHash_def by (rule fwd_readRaw)

lemma fwd_readNumber: "keeps (fwd r0) readNumber"
  unfolding readNumber_def by (rule fwd_readUint64)

lemma fwd_readIdent: "keeps (fwd r0) readIdent"
  unfolding readIdent_def by (intro keeps_intros fwd_readString)

lemma fwd_readKind: "keeps (fwd r0) readKind"
  unfolding readKind_def by (intro keeps_intros fwd_readUint8)

lemma fwd_withCache: "keeps (fwd r0) (withCache f)"
  by (simp add: keeps_def post_def withCache_def fwd_def split: prod.splits)

lemmas fwd_prims = fwd_readRaw fwd_readUint8 fwd_readUint32 fwd_readUint64 fwd_readBool
  fwd_readBytes fwd_readString fwd_readHash fwd_readNumber fwd_readIdent fwd_readKind fwd_withCache

lemma fwd_readUnionType: "keeps (fwd r0) rt \<Longrightarrow> keeps (fwd r0) (readUnionType rt)"
  unfolding readUnionType_def by (intro keeps_intros fwd_prims)

lemma fwd_readCachedStructType: "keeps (fwd r0) rt \<Longrightarrow> keeps (fwd r0) (readCachedStructType rt)"
  unfolding readCachedStructType_def
  apply (intro keeps_intros fwd_prims)
   apply assumption
  apply (simp add: keeps_def post_def)
  done

lemma fwd_readStructTypeFull: "keeps (fwd r0) rt \<Longrightarrow> keeps (fwd r0) (readStructTypeFull rt)"
  unfolding readStructTypeFull_def by (intro keeps_intros fwd_prims)

lemma fwd_readStructType:
  assumes rt: "keeps (fwd r0) rt"
  shows "keeps (fwd r0) (readStructType rt)"
  unfolding keeps_def
proof (intro allI impI)
  fix r assume r: "fwd r0 r"
  show "post (readStructType rt r) (\<lambda>a. fwd r0)"
  proof (cases "readCachedStructType rt r")
    case (Inl e)
    then show ?thesis by (simp add: readStructType_def post_def)
  next
    case (Inr p)
    obtain ot r' where p: "p = (ot, r')" by (cases p)
    have r': "fwd r0 r'"
      using fwd_readCachedStructType [OF rt] r Inr p by (auto dest: keepsD)
    show ?thesis
    proof (cases ot)
      case None
      from r r' have "fwd r0 (seek (pos r) r')"
        by (simp add: fwd_def seek_def pos_def)
      with fwd_readStructTypeFull [OF rt] have "post (readStructTypeFull rt (seek (pos r) r')) (\<lambda>a. fwd r0)"
        by (simp add: keeps_def)
      then show ?thesis using Inr p None by (simp add: readStructType_def)
    next
      case (Some t)
      then show ?thesis using Inr p r' by (simp add: readStructType_def post_def)
    qed
  qed
qed

lemma fwd_readTypeOfKind: "keeps (fwd r0) rt \<Longrightarrow> keeps (fwd r0) (readTypeOfKind rt k)"
  unfolding readTypeOfKind_def
  by (cases k) (auto intro!: keeps_intros fwd_prims fwd_readStructType fwd_readUnionType)

lemma fwd_readType_f: "keeps (fwd r0) (readType_f n)"
proof (induction n)
  case 0
  then show ?case by (simp add: keeps_def post_def)
next
  case (Suc n)
  have "keeps (fwd r0) (bind readKind (readTypeOfKind (readType_f n)))"
    by (intro keeps_intros fwd_prims fwd_readTypeOfKind Suc)
  then show ?case by (simp add: keeps_def)
qed

lemma fwd_readType: "keeps (fwd r0) readType"
  unfolding keeps_def readType_def
proof (intro allI impI)
  fix s assume "fwd r0 s"
  with fwd_readType_f [of r0 "Suc (remaining s)"]
  show "post (readType_f (Suc (remaining s)) s) (\<lambda>a. fwd r0)"
    unfolding keeps_def by blast
qed

lemma fwd_readRef: "keeps (fwd r0) (readRef t)"
  unfolding readRef_def by (intro keeps_intros fwd_prims)

lemma fwd_readBlobLeafSequence: "keeps (fwd r0) readBlobLeafSequence"
  unfolding readBlobLeafSequence_def by (intro keeps_intros fwd_prims)

lemma fwd_readValueSequence: "keeps (fwd r0) rv \<Longrightarrow> keeps (fwd r0) (readValueSequence rv)"
  unfolding readValueSequence_def by (intro keeps_intros fwd_prims)

lemma fwd_readListLeafSequence: "keeps (fwd r0) rv \<Longrightarrow> keeps (fwd r0) (readListLeafSequence rv t)"
  unfolding readListLeafSequence_def by (intro keeps_intros fwd_readValueSequence)

lemma fwd_readSetLeafSequence: "keeps (fwd r0) rv \<Longrightarrow> keeps (fwd r0) (readSetLeafSequence rv t)"
  unfolding readSetLeafSequence_def by (intro keeps_intros fwd_readValueSequence)

lemma fwd_readMapLeafSequence: "keeps (fwd r0) rv \<Longrightarrow> keeps (fwd r0) (readMapLeafSequence rv t)"
  unfolding readMapLeafSequence_def by (intro keeps_intros fwd_prims)

lemma fwd_readMetaTuple: "keeps (fwd r0) rv \<Longrightarrow> keeps (fwd r0) (readMetaTuple rv)"
  unfolding readMetaTuple_def
  by (intro keeps_intros fwd_prims) (auto split: Value.split intro!: keeps_intros fwd_prims)

lemma fwd_readMetaSequence: "keeps (fwd r0) rv \<Longrightarrow> keeps (fwd r0) (readMetaSequence rv)"
  unfolding readMetaSequence_def by (intro keeps_intros fwd_prims fwd_readMetaTuple)

lemma fwd_readIndexedMetaSequence: "keeps (fwd r0) rv \<Longrightarrow> keeps (fwd r0) (readIndexedMetaSequence rv t)"
  unfolding readIndexedMetaSequence_def by (intro keeps_intros fwd_readMetaSequence)

lemma fwd_readOrderedMetaSequence: "keeps (fwd r0) rv \<Longrightarrow> keeps (fwd r0) (readOrderedMetaSequence rv t)"
  unfolding readOrderedMetaSequence_def by (intro keeps_intros fwd_readMetaSequence)

lemma fwd_readStruct: "keeps (fwd r0) rv \<Longrightarrow> keeps (fwd r0) (readStruct rv t)"
  unfolding readStruct_def
  by (cases "Desc t") (auto intro!: keeps_intros)

lemmas fwd_seqs = fwd_readRef fwd_readBlobLeafSequence fwd_readListLeafSequence
  fwd_readSetLeafSequence fwd_readMapLeafSequence fwd_readIndexedMetaSequence
  fwd_readOrderedMetaSequence fwd_readStruct fwd_readType

lemma fwd_readPayload: "keeps (fwd r0) rv \<Longrightarrow> keeps (fwd r0) (readPayload rv t)"
  unfolding readPayload_def
  by (cases "Kind t") (auto intro!: keeps_intros fwd_prims fwd_seqs)

lemma fwd_readValue_f: "keeps (fwd r0) (readValue_f n)"
proof (induction n)
  case 0
  then show ?case by (simp add: keeps_def post_def)
next
  case (Suc n)
  have "keeps (fwd r0) (bind readType (\<lambda>t. readPayload (readValue_f n) t))"
    by (intro keeps_intros fwd_readType fwd_readPayload Suc)
  then show ?case by (simp add: keeps_def)
qed

lemma fwd_readValue: "keeps (fwd r0) readValue"
  unfolding keeps_def readValue_def
proof (intro allI impI)
  fix s assume "fwd r0 s"
  with fwd_readValue_f [of r0 "Suc (remaining s)"]
  show "post (readValue_f (Suc (remaining s)) s) (\<lambda>a. fwd r0)"
    unfolding keeps_def by blast
qed

subsection \<open>The recursion bound is never hit\<close>

definition agree :: "('s \<Rightarrow> bool) \<Rightarrow> ('s \<Rightarrow> error + 'a \<times> 's) \<Rightarrow> ('s \<Rightarrow> error + 'a \<times> 's) \<Rightarrow> bool" where
  "agree P m m' = (\<forall>s. P s \<longrightarrow> m' s = m s \<and> m s \<noteq> Inl OutOfFuel)"

lemma agreeD: "agree P m m' \<Longrightarrow> P s \<Longrightarrow> m' s = m s \<and> m s \<noteq> Inl OutOfFuel"
  unfolding agree_def by blast

lemma agree_pure: "agree P (pure x) (pure x)"
  by (simp add: agree_def pure_def)

lemma agree_throw: "e \<noteq> OutOfFuel \<Longrightarrow> agree P (throw e) (throw e)"
  by (simp add: agree_def throw_def)

lemma agree_bind:
  assumes m: "agree P m m'" and k: "keeps P m" and f: "\<And>x. agree P (f x) (f' x)"
  shows "agree P (bind m f) (bind m' f')"
  unfolding agree_def
proof (intro allI impI)
  fix s assume P: "P s"
  from m P have eq: "m' s = m s" and ne: "m s \<noteq> Inl OutOfFuel" by (auto dest: agreeD)
  show "bind m' f' s = bind m f s \<and> bind m f s \<noteq> Inl OutOfFuel"
  proof (cases "m s")
    case (Inl e)
    with eq ne show ?thesis by (simp add: bind_def)
  next
    case (Inr p)
    obtain x s' where p: "p = (x, s')" by (cases p)
    from k P Inr p have "P s'" by (auto dest: keepsD)
    with f [of x] have "f' x s' = f x s' \<and> f x s' \<noteq> Inl OutOfFuel" by (auto dest: agreeD)
    with eq Inr p show ?thesis by (simp add: bind_def)
  qed
qed

lemma agree_forLoop:
  assumes b: "\<And>acc. agree P (body acc) (body' acc)" and k: "\<And>acc. keeps P (body acc)"
  shows "agree P (forLoop n body acc) (forLoop n body' acc)"
proof (induction n arbitrary: acc)
  case 0
  then show ?case by (simp add: agree_def)
next
  case (Suc n)
  show ?case
    unfolding agree_def
  proof (intro allI impI)
    fix s assume P: "P s"
    from b [of acc] P have eq: "body' acc s = body acc s" and ne: "body acc s \<noteq> Inl OutOfFuel"
      by (auto dest: agreeD)
    show "forLoop (Suc n) body' acc s = forLoop (Suc n) body acc s \<and> forLoop (Suc n) body acc s \<noteq> Inl OutOfFuel"
    proof (cases "body acc s")
      case (Inl e)
      with eq ne show ?thesis by simp
    next
      case (Inr p)
      obtain acc' s' where p: "p = (acc', s')" by (cases p)
      from k [of acc] P Inr p have "P s'" by (auto dest: keepsD)
      with Suc.IH [of acc'] have "forLoop n body' acc' s' = forLoop n body acc' s' \<and> forLoop n body acc' s' \<noteq> Inl OutOfFuel"
        by (auto dest: agreeD)
      with eq Inr p show ?thesis by simp
    qed
  qed
qed

lemma agree_case_prod: "(\<And>a b. agree P (f a b) (f' a b)) \<Longrightarrow> agree P (case_prod f x) (case_prod f' x)"
  by (cases x) simp

lemma agree_if: "agree P m m' \<Longrightarrow> agree P n n' \<Longrightarrow> agree P (if b then m else n) (if b then m' else n')"
  by simp

lemmas agree_intros = agree_bind agree_pure agree_forLoop agree_case_prod agree_if

lemma agree_readRaw: "agree P (readRaw n) (readRaw n)"
  by (simp add: agree_def readRaw_def)

lemma agree_readUint8: "agree (fwd r0) readUint8 readUint8"
  unfolding readUint8_def by (intro agree_intros agree_readRaw fwd_prims)

lemma agree_readUint32: "agree (fwd r0) readUint32 readUint32"
  unfolding readUint32_def by (intro agree_intros agree_readRaw fwd_prims)

lemma agree_readUint64: "agree (fwd r0) readUint64 readUint64"
  unfolding readUint64_def by (intro agree_intros agree_readRaw fwd_prims)

lemma agree_readBool: "agree (fwd r0) readBool readBool"
  unfolding readBool_def by (intro agree_intros agree_readUint8 fwd_prims)

lemma agree_readBytes: "agree (fwd r0) readBytes readBytes"
  unfolding readBytes_def by (intro agree_intros agree_readUint32 agree_readRaw fwd_prims)

lemma agree_readString: "agree (fwd r0) readString readString"
  unfolding readString_def by (rule agree_readBytes)

lemma agree_readHash: "agree (fwd r0) readHash readHash"
  unfolding readHash_def by (rule agree_readRaw)

lemma agree_readNumber: "agree (fwd r0) readNumber readNumber"
  unfolding readNumber_def by (rule agree_readUint64)

lemma agree_readIdent: "agree (fwd r0) readIdent readIdent"
  unfolding readIdent_def by (intro agree_intros agree_readString fwd_prims)

lemma agree_readKind: "agree (fwd r0) readKind readKind"
  unfolding readKind_def by (intro agree_intros agree_readUint8 fwd_prims)

lemma agree_withCache: "agree P (withCache f) (withCache f)"
  by (simp add: agree_def withCache_def split: prod.splits)

lemmas agree_prims = agree_readRaw agree_readUint8 agree_readUint32 agree_readUint64 agree_readBool
  agree_readBytes agree_readString agree_readHash agree_readNumber agree_readIdent agree_readKind
  agree_withCache

lemma agree_readUnionType:
  "agree (fwd r0) rt rt' \<Longrightarrow> keeps (fwd r0) rt \<Longrightarrow> agree (fwd r0) (readUnionType rt) (readUnionType rt')"
  unfolding readUnionType_def by (intro agree_intros agree_prims keeps_intros fwd_prims)

lemma agree_readCachedStructType:
  "agree (fwd r0) rt rt' \<Longrightarrow> keeps (fwd r0) rt \<Longrightarrow> agree (fwd r0) (readCachedStructType rt) (readCachedStructType rt')"
  unfolding readCachedStructType_def
  apply (intro agree_intros agree_prims keeps_intros fwd_prims)
     apply assumption+
  apply (simp add: agree_def)
  done

lemma agree_readStructTypeFull:
  "agree (fwd r0) rt rt' \<Longrightarrow> keeps (fwd r0) rt \<Longrightarrow> agree (fwd r0) (readStructTypeFull rt) (readStructTypeFull rt')"
  unfolding readStructTypeFull_def by (intro agree_intros agree_prims keeps_intros fwd_prims)

lemma agree_readStructType:
  assumes a: "agree (fwd r0) rt rt'" and k: "keeps (fwd r0) rt"
  shows "agree (fwd r0) (readStructType rt) (readStructType rt')"
  unfolding agree_def
proof (intro allI impI)
  fix r assume r: "fwd r0 r"
  from agree_readCachedStructType [OF a k] r
  have eq: "readCachedStructType rt' r = readCachedStructType rt r"
    and ne: "readCachedStructType rt r \<noteq> Inl OutOfFuel" by (auto dest: agreeD)
  show "readStructType rt' r = readStructType rt r \<and> readStructType rt r \<noteq> Inl OutOfFuel"
  proof (cases "readCachedStructType rt r")
    case (Inl e)
    with eq ne show ?thesis by (simp add: readStructType_def)
  next
    case (Inr p)
    obtain ot r' where p: "p = (ot, r')" by (cases p)
    have r': "fwd r0 r'"
      using fwd_readCachedStructType [OF k] r Inr p by (auto dest: keepsD)
    show ?thesis
    proof (cases ot)
      case None
      from r r' have "fwd r0 (seek (pos r) r')"
        by (simp add: fwd_def seek_def pos_def)
      with agree_readStructTypeFull [OF a k]
      have "readStructTypeFull rt' (seek (pos r) r') = readStructTypeFull rt (seek (pos r) r')
          \<and> readStructTypeFull rt (seek (pos r) r') \<noteq> Inl OutOfFuel"
        by (auto dest: agreeD)
      then show ?thesis using Inr p None eq by (simp add: readStructType_def)
    next
      case (Some t)
      then show ?thesis using Inr p eq by (simp add: readStructType_def)
    qed
  qed
qed

lemma agree_readTypeOfKind:
  "agree (fwd r0) rt rt' \<Longrightarrow> keeps (fwd r0) rt \<Longrightarrow> agree (fwd r0) (readTypeOfKind rt k) (readTypeOfKind rt' k)"
  unfolding readTypeOfKind_def
  by (cases k) (auto intro!: agree_intros agree_prims agree_throw agree_readStructType agree_readUnionType fwd_prims)

lemma remaining_fwd: "fwd r0 r \<Longrightarrow> remaining r \<le> remaining r0"
  by (auto simp: fwd_def remaining_def)

lemma readKind_remaining: "readKind r = Inr (k, r') \<Longrightarrow> remaining r' < remaining r \<and> fwd r r'"
  by (auto simp: readKind_def readUint8_def bind_def pure_def readRaw_def remaining_def fwd_def
      split: if_splits)

lemma readType_f_agree:
  "remaining r < n \<Longrightarrow> remaining r < m \<Longrightarrow> readType_f m r = readType_f n r \<and> readType_f n r \<noteq> Inl OutOfFuel"
proof (induction n arbitrary: m r)
  case 0
  then show ?case by simp
next
  case (Suc n)
  from Suc.prems obtain m' where m: "m = Suc m'" by (cases m) auto
  show ?case
  proof (cases "readKind r")
    case (Inl e)
    then have "e = EOF"
      by (auto simp: readKind_def readUint8_def bind_def pure_def readRaw_def split: if_splits)
    with Inl m show ?thesis by (simp add: bind_def)
  next
    case (Inr p)
    obtain k r1 where p: "p = (k, r1)" by (cases p)
    from Inr p have r1: "remaining r1 < remaining r" by (auto dest: readKind_remaining)
    have "agree (fwd r1) (readType_f n) (readType_f m')"
      unfolding agree_def
    proof (intro allI impI)
      fix s assume "fwd r1 s"
      then have "remaining s \<le> remaining r1" by (rule remaining_fwd)
      with r1 Suc.prems m have "remaining s < n" "remaining s < m'" by auto
      then show "readType_f m' s = readType_f n s \<and> readType_f n s \<noteq> Inl OutOfFuel"
        by (rule Suc.IH)
    qed
    then have "agree (fwd r1) (readTypeOfKind (readType_f n) k) (readTypeOfKind (readType_f m') k)"
      by (rule agree_readTypeOfKind) (rule fwd_readType_f)
    then show ?thesis using Inr p m by (auto simp: bind_def dest: agreeD [where s = r1] simp: fwd_refl)
  qed
qed

theorem readType_fuel: "remaining r < n \<Longrightarrow> readType_f n r = readType r"
  using readType_f_agree [of r n "Suc (remaining r)"] by (simp add: readType_def)

theorem readType_not_OutOfFuel: "readType r \<noteq> Inl OutOfFuel"
  using readType_f_agree [of r "Suc (remaining r)" "Suc (remaining r)"] by (simp add: readType_def)

lemma agree_readType_f: "remaining r0 < n \<Longrightarrow> agree (fwd r0) (readType_f n) readType"
  unfolding agree_def
proof (intro allI impI)
  fix s assume "fwd r0 s" and n: "remaining r0 < n"
  then have "remaining s < n" by (auto dest: remaining_fwd)
  then show "readType s = readType_f n s \<and> readType_f n s \<noteq> Inl OutOfFuel"
    using readType_fuel [of s n] readType_not_OutOfFuel [of s] by simp
qed

theorem readType_unfold: "readType r = bind readKind (readTypeOfKind readType) r"
proof (cases "readKind r")
  case (Inl e)
  then show ?thesis by (simp add: readType_def bind_def)
next
  case (Inr p)
  obtain k r1 where p: "p = (k, r1)" by (cases p)
  from Inr p have r1: "remaining r1 < remaining r" by (auto dest: readKind_remaining)
  then have "agree (fwd r1) (readType_f (remaining r)) readType"
    by (rule agree_readType_f)
  then have "agree (fwd r1) (readTypeOfKind (readType_f (remaining r)) k) (readTypeOfKind readType k)"
    by (rule agree_readTypeOfKind) (rule fwd_readType_f)
  then show ?thesis using Inr p
    by (auto simp: readType_def bind_def dest: agreeD [where s = r1] simp: fwd_refl)
qed

lemma agree_readType: "agree (fwd r0) readType readType"
  by (simp add: agree_def readType_not_OutOfFuel)

lemma agree_readRef: "agree (fwd r0) (readRef t) (readRef t)"
  unfolding readRef_def by (intro agree_intros agree_prims fwd_prims)

lemma agree_readBlobLeafSequence: "agree (fwd r0) readBlobLeafSequence readBlobLeafSequence"
  unfolding readBlobLeafSequence_def by (intro agree_intros agree_prims fwd_prims)

lemma agree_readValueSequence:
  "agree (fwd r0) rv rv' \<Longrightarrow> keeps (fwd r0) rv \<Longrightarrow> agree (fwd r0) (readValueSequence rv) (readValueSequence rv')"
  unfolding readValueSequence_def by (intro agree_intros agree_prims keeps_intros fwd_prims)

lemma agree_readListLeafSequence:
  "agree (fwd r0) rv rv' \<Longrightarrow> keeps (fwd r0) rv \<Longrightarrow> agree (fwd r0) (readListLeafSequence rv t) (readListLeafSequence rv' t)"
  unfolding readListLeafSequence_def by (intro agree_intros agree_readValueSequence fwd_readValueSequence)

lemma agree_readSetLeafSequence:
  "agree (fwd r0) rv rv' \<Longrightarrow> keeps (fwd r0) rv \<Longrightarrow> agree (fwd r0) (readSetLeafSequence rv t) (readSetLeafSequence rv' t)"
  unfolding readSetLeafSequence_def by (intro agree_intros agree_readValueSequence fwd_readValueSequence)

lemma agree_readMapLeafSequence:
  "agree (fwd r0) rv rv' \<Longrightarrow> keeps (fwd r0) rv \<Longrightarrow> agree (fwd r0) (readMapLeafSequence rv t) (readMapLeafSequence rv' t)"
  unfolding readMapLeafSequence_def by (intro agree_intros agree_prims keeps_intros fwd_prims)

lemma agree_readMetaTuple:
  "agree (fwd r0) rv rv' \<Longrightarrow> keeps (fwd r0) rv \<Longrightarrow> agree (fwd r0) (readMetaTuple rv) (readMetaTuple rv')"
  unfolding readMetaTuple_def
  by (intro agree_intros agree_prims keeps_intros fwd_prims)
    (auto split: Value.split intro!: agree_intros agree_prims agree_throw keeps_intros fwd_prims)

lemma agree_readMetaSequence:
  "agree (fwd r0) rv rv' \<Longrightarrow> keeps (fwd r0) rv \<Longrightarrow> agree (fwd r0) (readMetaSequence rv) (readMetaSequence rv')"
  unfolding readMetaSequence_def
  by (intro agree_intros agree_prims keeps_intros fwd_prims agree_readMetaTuple fwd_readMetaTuple)

lemma agree_readIndexedMetaSequence:
  "agree (fwd r0) rv rv' \<Longrightarrow> keeps (fwd r0) rv \<Longrightarrow> agree (fwd r0) (readIndexedMetaSequence rv t) (readIndexedMetaSequence rv' t)"
  unfolding readIndexedMetaSequence_def by (intro agree_intros agree_readMetaSequence fwd_readMetaSequence)

lemma agree_readOrderedMetaSequence:
  "agree (fwd r0) rv rv' \<Longrightarrow> keeps (fwd r0) rv \<Longrightarrow> agree (fwd r0) (readOrderedMetaSequence rv t) (readOrderedMetaSequence rv' t)"
  unfolding readOrderedMetaSequence_def by (intro agree_intros agree_readMetaSequence fwd_readMetaSequence)

lemma agree_readStruct:
  "agree (fwd r0) rv rv' \<Longrightarrow> keeps (fwd r0) rv \<Longrightarrow> agree (fwd r0) (readStruct rv t) (readStruct rv' t)"
  unfolding readStruct_def
  by (cases "Desc t") (auto intro!: agree_intros agree_throw keeps_intros)

lemmas agree_seqs = agree_readRef agree_readBlobLeafSequence agree_readListLeafSequence
  agree_readSetLeafSequence agree_readMapLeafSequence agree_readIndexedMetaSequence
  agree_readOrderedMetaSequence agree_readStruct agree_readType

lemma agree_readPayload:
  "agree (fwd r0) rv rv' \<Longrightarrow> keeps (fwd r0) rv \<Longrightarrow> agree (fwd r0) (readPayload rv t) (readPayload rv' t)"
  unfolding readPayload_def
  by (cases "Kind t") (auto intro!: agree_intros agree_prims agree_seqs agree_throw fwd_prims fwd_seqs)

lemma readType_remaining: "readType r = Inr (t, r') \<Longrightarrow> remaining r' < remaining r \<and> fwd r r'"
proof -
  assume a: "readType r = Inr (t, r')"
  then obtain k r1 where k: "readKind r = Inr (k, r1)" and t: "readTypeOfKind readType k r1 = Inr (t, r')"
    by (auto simp: readType_unfold [of r] bind_def split: sum.splits)
  from k have r1: "remaining r1 < remaining r" "fwd r r1" by (auto dest: readKind_remaining)
  have "fwd r1 r'"
    by (rule keepsD [OF fwd_readTypeOfKind [OF fwd_readType] fwd_refl t])
  with r1 show ?thesis by (auto dest: remaining_fwd fwd_trans)
qed

lemma readValue_f_agree:
  "remaining r < n \<Longrightarrow> remaining r < m \<Longrightarrow> readValue_f m r = readValue_f n r \<and> readValue_f n r \<noteq> Inl OutOfFuel"
proof (induction n arbitrary: m r)
  case 0
  then show ?case by simp
next
  case (Suc n)
  from Suc.prems obtain m' where m: "m = Suc m'" by (cases m) auto
  show ?case
  proof (cases "readType r")
    case (Inl e)
    with readType_not_OutOfFuel [of r] m show ?thesis by (simp add: bind_def)
  next
    case (Inr p)
    obtain t r1 where p: "p = (t, r1)" by (cases p)
    from Inr p have r1: "remaining r1 < remaining r" by (auto dest: readType_remaining)
    have "agree (fwd r1) (readValue_f n) (readValue_f m')"
      unfolding agree_def
    proof (intro allI impI)
      fix s assume "fwd r1 s"
      then have "remaining s \<le> remaining r1" by (rule remaining_fwd)
      with r1 Suc.prems m have "remaining s < n" "remaining s < m'" by auto
      then show "readValue_f m' s = readValue_f n s \<and> readValue_f n s \<noteq> Inl OutOfFuel"
        by (rule Suc.IH)
    qed
    then have "agree (fwd r1) (readPayload (readValue_f n) t) (readPayload (readValue_f m') t)"
      by (rule agree_readPayload) (rule fwd_readValue_f)
    then show ?thesis using Inr p m by (auto simp: bind_def dest: agreeD [where s = r1] simp: fwd_refl)
  qed
qed

theorem readValue_fuel: "remaining r < n \<Longrightarrow> readValue_f n r = readValue r"
  using readValue_f_agree [of r "Suc (remaining r)" n] by (simp add: readValue_def)

theorem readValue_not_OutOfFuel: "readValue r \<noteq> Inl OutOfFuel"
  using readValue_f_agree [of r "Suc (remaining r)" "Suc (remaining r)"] by (simp add: readValue_def)

lemma agree_readValue_f: "remaining r0 < n \<Longrightarrow> agree (fwd r0) (readValue_f n) readValue"
  unfolding agree_def
proof (intro allI impI)
  fix s assume "fwd r0 s" and n: "remaining r0 < n"
  then have "remaining s < n" by (auto dest: remaining_fwd)
  then show "readValue s = readValue_f n s \<and> readValue_f n s \<noteq> Inl OutOfFuel"
    using readValue_fuel [of s n] readValue_not_OutOfFuel [of s] by simp
qed

theorem readValue_unfold: "readValue r = bind readType (readPayload readValue) r"
proof (cases "readType r")
  case (Inl e)
  then show ?thesis by (simp add: readValue_def bind_def)
next
  case (Inr p)
  obtain t r1 where p: "p = (t, r1)" by (cases p)
  from Inr p have r1: "remaining r1 < remaining r" by (auto dest: readType_remaining)
  then have "agree (fwd r1) (readValue_f (remaining r)) readValue"
    by (rule agree_readValue_f)
  then have "agree (fwd r1) (readPayload (readValue_f (remaining r)) t) (readPayload readValue t)"
    by (rule agree_readPayload) (rule fwd_readValue_f)
  then show ?thesis using Inr p
    by (auto simp: readValue_def bind_def dest: agreeD [where s = r1] simp: fwd_refl)
qed

subsection \<open>Loops as consecutive decodes\<close>

lemma forLoop_append:
  "forLoop n (\<lambda>data. bind m (\<lambda>x. pure (data @ [x]))) acc s =
     (case repN n m s of Inl e \<Rightarrow> Inl e | Inr (xs, s') \<Rightarrow> Inr (acc @ xs, s'))"
proof (induction n arbitrary: acc s)
  case 0
  then show ?case by simp
next
  case (Suc n)
  show ?case
  proof (cases "m s")
    case (Inl e)
    then show ?thesis by (simp add: bind_def)
  next
    case (Inr p)
    obtain x s' where p: "p = (x, s')" by (cases p)
    show ?thesis using Inr p Suc.IH [of "acc @ [x]" s']
      by (simp add: bind_def pure_def split: sum.splits)
  qed
qed

lemma repN_length: "repN n m s = Inr (xs, s') \<Longrightarrow> length xs = n"
  by (induction n arbitrary: xs s) (auto split: sum.splits)

lemma repN_all:
  "repN n m s = Inr (xs, s') \<Longrightarrow> x \<in> set xs \<Longrightarrow> (\<And>r y r'. m r = Inr (y, r') \<Longrightarrow> P y) \<Longrightarrow> P x"
  by (induction n arbitrary: xs s) (auto split: sum.splits)

lemma repN_fails:
  "repN i m s = Inr (xs, s') \<Longrightarrow> m s' = Inl e \<Longrightarrow> i < n \<Longrightarrow> repN n m s = Inl e"
proof (induction i arbitrary: n s xs)
  case 0
  then obtain n' where "n = Suc n'" by (cases n) auto
  with 0 show ?case by simp
next
  case (Suc i)
  then obtain n' where n: "n = Suc n'" by (cases n) auto
  from Suc.prems(1) obtain x s1 xs' where m: "m s = Inr (x, s1)" and r: "repN i m s1 = Inr (xs', s')"
    by (auto split: sum.splits)
  from Suc.IH [OF r Suc.prems(2), of n'] Suc.prems(3) n have "repN n' m s1 = Inl e" by simp
  with m n show ?case by simp
qed

lemma readMetaSequence_repN:
  "readMetaSequence rv r =
     (case readUint32 r of Inl e \<Rightarrow> Inl e
      | Inr (count, r1) \<Rightarrow> repN (unat count) (readMetaTuple rv) r1)"
  by (auto simp: readMetaSequence_def bind_def forLoop_append split: sum.splits)

text \<open>
  Claim C2.  When the type that \<^verbatim>\<open>readValue\<close> reads first has kind union,
  cycle or value, \<^verbatim>\<open>readValue\<close> panics with the failed \<^verbatim>\<open>d.Chk\<close>
  assertion: it returns no value, whole or partial.
\<close>

theorem readValue_abstract_kind:
  "readType r = Inr (t, r') \<Longrightarrow> Kind t = UnionKind \<or> Kind t = CycleKind \<or> Kind t = ValueKind \<Longrightarrow>
   readValue r = Inl ChkFail"
  by (auto simp: readValue_unfold [of r] bind_def readPayload_def throw_def)

theorem readValue_abstract_kind_witness:
  "readValue (newValueDecoder [12, 0, 0, 0, 2, 1, 0] \<lparr>fetched = []\<rparr> newTypeCache) = Inl ChkFail"
proof -
  let ?r = "newValueDecoder [12, 0, 0, 0, 2, 1, 0] \<lparr>fetched = []\<rparr> newTypeCache"
  let ?t = "Type (CompoundDesc UnionKind [Type (PrimitiveDesc BoolKind) 0, Type (PrimitiveDesc NumberKind) 1]) 256"
  let ?r' = "\<lparr>buff = [12, 0, 0, 0, 2, 1, 0], offset = 7, vr = \<lparr>fetched = []\<rparr>,
    tc = \<lparr>entries = [((UnionKind, [Num 0, Num 1]), ?t)], nextId = 257\<rparr>\<rparr>"
  have rt: "readType ?r = Inr (?t, ?r')"
    by code_simp
  have "Kind ?t = UnionKind" by (simp add: Kind_def)
  with readValue_abstract_kind [OF rt] show ?thesis by simp
qed

text \<open>
  Claim C3.  When the trie fast path of \<^verbatim>\<open>readStructType\<close> ends on a node
  with no type, the cursor goes back to the position saved before the fast
  path (the buffer and the cache are those the fast path left), and the
  result is the full decode from there: the struct name, the field count,
  each field name and field type, and \<^verbatim>\<open>makeStructType\<close> on the cache.
\<close>

theorem readStructType_fallback:
  "readCachedStructType rt r = Inr (None, r') \<Longrightarrow>
   offset (seek (pos r) r') = offset r \<and> buff (seek (pos r) r') = buff r' \<and> tc (seek (pos r) r') = tc r' \<and>
   readStructType rt r =
     bind readString (\<lambda>name.
     bind readUint32 (\<lambda>count.
     bind (forLoop (unat count)
             (\<lambda>(fieldNames, fieldTypes). bind readString (\<lambda>fn. bind rt (\<lambda>ft.
                pure (fieldNames @ [fn], fieldTypes @ [ft]))))
             ([], []))
       (\<lambda>(fieldNames, fieldTypes). withCache (makeStructType name fieldNames fieldTypes))))
     (seek (pos r) r')"
  by (simp add: readStructType_def readStructTypeFull_def seek_def pos_def)

lemma readMetaTuple_child: "readMetaTuple rv r = Inr (tup, r') \<Longrightarrow> child tup = None"
  by (auto simp: readMetaTuple_def bind_def pure_def throw_def split: sum.splits Value.splits)

lemma readMetaTuple_content:
  "readMetaTuple rv ra = Inr (tup, rd) \<longleftrightarrow>
     (\<exists>rf rb v rc n. rv ra = Inr (RefValue rf, rb) \<and> rv rb = Inr (v, rc)
        \<and> readUint64 rc = Inr (n, rd) \<and> tup = newMetaTuple rf (orderedKey_of v) n None)"
proof (cases "rv ra")
  case (Inl e)
  then show ?thesis by (simp add: readMetaTuple_def bind_def)
next
  case (Inr p)
  obtain x rb where p: "p = (x, rb)" by (cases p)
  show ?thesis
  proof (cases "\<exists>rf. x = RefValue rf")
    case False
    with Inr p show ?thesis
      by (cases x) (auto simp: readMetaTuple_def bind_def throw_def)
  next
    case True
    then obtain rf where x: "x = RefValue rf" by blast
    show ?thesis
    proof (cases "rv rb")
      case (Inl e)
      with Inr p x show ?thesis by (simp add: readMetaTuple_def bind_def)
    next
      case v: (Inr q)
      obtain v rc where q: "q = (v, rc)" by (cases q)
      show ?thesis
      proof (cases "readUint64 rc")
        case (Inl e)
        with Inr p x v q show ?thesis by (simp add: readMetaTuple_def bind_def)
      next
        case n: (Inr w)
        obtain n rd' where w: "w = (n, rd')" by (cases w)
        with Inr p x v q n show ?thesis
          by (auto simp: readMetaTuple_def bind_def pure_def)
      qed
    qed
  qed
qed

lemma repN_source:
  "repN n m s = Inr (xs, s') \<Longrightarrow> x \<in> set xs \<Longrightarrow> \<exists>ra rd. m ra = Inr (x, rd)"
  by (rule repN_all [where P = "\<lambda>y. \<exists>ra rd. m ra = Inr (y, rd)"]) blast+

text \<open>
  Claim C5.  A meta sequence that \<^verbatim>\<open>readMetaSequence\<close> decodes is the count
  and then that many runs of the loop body \<open>readMetaTuple\<close>.  The body
  succeeds exactly when three decodes in a row succeed, a ref value, a second
  value and a 64-bit leaf count, and its tuple is those three: the ref, the
  key of the second value, the count, and no child.  So every tuple of the
  sequence is such a triple with no child, and the chunk-fetch collaborator
  \<open>vr\<close> of the decoder is as it was: \<open>fetchChunk\<close> was never applied.
\<close>

theorem readMetaSequence_no_child:
  assumes "readMetaSequence readValue r = Inr (data, r')"
  shows "(\<exists>count ra. readUint32 r = Inr (count, ra) \<and> length data = unat count
            \<and> repN (unat count) (readMetaTuple readValue) ra = Inr (data, r'))
    \<and> (\<forall>ra tup rd. readMetaTuple readValue ra = Inr (tup, rd) \<longleftrightarrow>
          (\<exists>rf rb v rc n. readValue ra = Inr (RefValue rf, rb) \<and> readValue rb = Inr (v, rc)
              \<and> readUint64 rc = Inr (n, rd) \<and> tup = newMetaTuple rf (orderedKey_of v) n None))
    \<and> (\<forall>tup\<in>set data. \<exists>ra rf rb v rc n rd. readValue ra = Inr (RefValue rf, rb)
          \<and> readValue rb = Inr (v, rc) \<and> readUint64 rc = Inr (n, rd)
          \<and> tup = newMetaTuple rf (orderedKey_of v) n None)
    \<and> (\<forall>tup\<in>set data. child tup = None)
    \<and> vr r' = vr r"
proof -
  from assms obtain count ra where c: "readUint32 r = Inr (count, ra)"
    and rep: "repN (unat count) (readMetaTuple readValue) ra = Inr (data, r')"
    by (auto simp: readMetaSequence_repN split: sum.splits)
  from rep have len: "length data = unat count" by (rule repN_length)
  have 1: "\<exists>count ra. readUint32 r = Inr (count, ra) \<and> length data = unat count
            \<and> repN (unat count) (readMetaTuple readValue) ra = Inr (data, r')"
    using c rep len by blast
  have 2: "\<forall>ra tup rd. readMetaTuple readValue ra = Inr (tup, rd) \<longleftrightarrow>
          (\<exists>rf rb v rc n. readValue ra = Inr (RefValue rf, rb) \<and> readValue rb = Inr (v, rc)
              \<and> readUint64 rc = Inr (n, rd) \<and> tup = newMetaTuple rf (orderedKey_of v) n None)"
    by (intro allI readMetaTuple_content)
  have 3: "\<forall>tup\<in>set data. \<exists>ra rf rb v rc n rd. readValue ra = Inr (RefValue rf, rb)
          \<and> readValue rb = Inr (v, rc) \<and> readUint64 rc = Inr (n, rd)
          \<and> tup = newMetaTuple rf (orderedKey_of v) n None"
  proof
    fix tup assume "tup \<in> set data"
    with rep obtain ra rd where "readMetaTuple readValue ra = Inr (tup, rd)"
      by (blast dest: repN_source)
    then show "\<exists>ra rf rb v rc n rd. readValue ra = Inr (RefValue rf, rb)
          \<and> readValue rb = Inr (v, rc) \<and> readUint64 rc = Inr (n, rd)
          \<and> tup = newMetaTuple rf (orderedKey_of v) n None"
      unfolding readMetaTuple_content by blast
  qed
  have 4: "\<forall>tup\<in>set data. child tup = None"
  proof
    fix tup assume "tup \<in> set data"
    with rep show "child tup = None"
      by (rule repN_all [where P = "\<lambda>tup. child tup = None"]) (rule readMetaTuple_child)
  qed
  have "fwd r r'"
    by (rule keepsD [OF fwd_readMetaSequence [OF fwd_readValue] fwd_refl assms])
  then have 5: "vr r' = vr r" by (simp add: fwd_def)
  from 1 2 3 4 5 show ?thesis by (intro conjI)
qed

theorem readMetaSequence_no_child_witness:
  "map child (fst (projr (readMetaSequence readValue
      (newValueDecoder ([0, 0, 0, 1] @ [7, 0] @ replicate 20 5 @ [0, 0, 0, 0, 0, 0, 0, 2]
          @ [1, 0, 0, 0, 0, 0, 0, 0, 9] @ [0, 0, 0, 0, 0, 0, 0, 3]) \<lparr>fetched = [[1]]\<rparr> newTypeCache)))) = [None]
   \<and> vr (snd (projr (readMetaSequence readValue
      (newValueDecoder ([0, 0, 0, 1] @ [7, 0] @ replicate 20 5 @ [0, 0, 0, 0, 0, 0, 0, 2]
          @ [1, 0, 0, 0, 0, 0, 0, 0, 9] @ [0, 0, 0, 0, 0, 0, 0, 3]) \<lparr>fetched = [[1]]\<rparr> newTypeCache)))) = \<lparr>fetched = [[1]]\<rparr>"
proof -
  let ?r = "newValueDecoder ([0, 0, 0, 1] @ [7, 0] @ replicate 20 5 @ [0, 0, 0, 0, 0, 0, 0, 2]
          @ [1, 0, 0, 0, 0, 0, 0, 0, 9] @ [0, 0, 0, 0, 0, 0, 0, 3]) \<lparr>fetched = [[1]]\<rparr> newTypeCache"
  let ?t = "Type (CompoundDesc RefKind [Type (PrimitiveDesc BoolKind) 0]) 256"
  let ?data = "[newMetaTuple (constructRef ?t (replicate 20 5) 2) (newOrderedKey (Number 9 :: Type Value)) 3 None]"
  let ?r' = "\<lparr>buff = [0, 0, 0, 1] @ [7, 0] @ replicate 20 5 @ [0, 0, 0, 0, 0, 0, 0, 2]
          @ [1, 0, 0, 0, 0, 0, 0, 0, 9] @ [0, 0, 0, 0, 0, 0, 0, 3], offset = 51,
       vr = \<lparr>fetched = [[1]]\<rparr>, tc = \<lparr>entries = [((RefKind, [Num 0]), ?t)], nextId = 257\<rparr>\<rparr>"
  have e: "readMetaSequence readValue ?r = Inr (?data, ?r')"
    by code_simp
  note w = readMetaSequence_no_child [OF e]
  from w have "\<forall>tup\<in>set ?data. child tup = None" by (rule conjunct1 [OF conjunct2 [OF conjunct2 [OF conjunct2]]])
  moreover from w have "vr ?r' = vr ?r" by (rule conjunct2 [OF conjunct2 [OF conjunct2 [OF conjunct2]]])
  ultimately show ?thesis unfolding e by (simp add: newValueDecoder_def)
qed

lemma readMetaTuple_key:
  assumes "rv r = Inr (x, r1)" and "rv r1 = Inr (v, r2)" and "readMetaTuple rv r = Inr (tup, r3)"
  shows "key tup = orderedKey_of v"
  using assms
  by (auto simp: readMetaTuple_def bind_def pure_def throw_def split: sum.splits Value.splits)

text \<open>
  Claim C6.  \<^verbatim>\<open>readMetaSequence\<close> reads its count and then decodes that many
  tuples, each by the loop body \<open>readMetaTuple\<close>.  The key of a tuple comes
  from the second value the body decodes: from the target digest when that
  value is a ref, from the value itself otherwise.
\<close>

theorem readMetaSequence_key:
  "readMetaSequence readValue r =
     (case readUint32 r of Inl e \<Rightarrow> Inl e
      | Inr (count, r1) \<Rightarrow> repN (unat count) (readMetaTuple readValue) r1)
   \<and> (readValue r = Inr (x, r1) \<longrightarrow> readValue r1 = Inr (v, r2) \<longrightarrow>
        readMetaTuple readValue r = Inr (tup, r3) \<longrightarrow>
          (\<forall>rf. v = RefValue rf \<longrightarrow> key tup = orderedKeyFromHash (TargetHash rf))
        \<and> ((\<forall>rf. v \<noteq> RefValue rf) \<longrightarrow> key tup = newOrderedKey v))"
proof (intro conjI impI allI)
  show "readMetaSequence readValue r =
     (case readUint32 r of Inl e \<Rightarrow> Inl e
      | Inr (count, r1) \<Rightarrow> repN (unat count) (readMetaTuple readValue) r1)"
    by (rule readMetaSequence_repN)
next
  fix rf
  assume a: "readValue r = Inr (x, r1)" "readValue r1 = Inr (v, r2)"
    "readMetaTuple readValue r = Inr (tup, r3)" and v: "v = RefValue rf"
  from a have "key tup = orderedKey_of v" by (rule readMetaTuple_key)
  with v show "key tup = orderedKeyFromHash (TargetHash rf)" by (simp add: orderedKey_of_def)
next
  assume a: "readValue r = Inr (x, r1)" "readValue r1 = Inr (v, r2)"
    "readMetaTuple readValue r = Inr (tup, r3)" and v: "\<forall>rf. v \<noteq> RefValue rf"
  from a have "key tup = orderedKey_of v" by (rule readMetaTuple_key)
  with v show "key tup = newOrderedKey v" by (cases v) (auto simp: orderedKey_of_def)
qed

text \<open>
  Claim C10.  When the first value decoded for a tuple of a meta sequence
  (the tuple of index \<open>i\<close>, after \<open>i\<close> tuples were decoded) is not a ref,
  \<^verbatim>\<open>readMetaSequence\<close> panics with the failed type assertion and returns
  no meta sequence.  The child pointer of a decoded tuple is a \<open>Ref\<close> by
  its type.
\<close>

theorem readMetaSequence_ref_required:
  assumes "readUint32 r = Inr (count, r0)" and "i < unat count"
    and "repN i (readMetaTuple readValue) r0 = Inr (tups, ri)"
    and "readValue ri = Inr (x, r')" and "\<forall>rf. x \<noteq> RefValue rf"
  shows "readMetaSequence readValue r = Inl TypeAssertion"
proof -
  from assms(4) assms(5) have "readMetaTuple readValue ri = Inl TypeAssertion"
    by (cases x) (auto simp: readMetaTuple_def bind_def throw_def)
  with assms(3) have "repN (unat count) (readMetaTuple readValue) r0 = Inl TypeAssertion"
    using assms(2) by (rule repN_fails)
  with assms(1) show ?thesis by (simp add: readMetaSequence_repN)
qed

text \<open>
  Claim C7.  For a struct type with the fields \<open>fs\<close>, \<^verbatim>\<open>readStruct\<close> is
  \<open>length fs\<close> value decodes one after the other, and nothing else is read;
  the struct it returns holds the values in that order, the type, and the
  zero digest (not yet computed).
\<close>

theorem readStruct_positional:
  assumes "Desc t = StructDesc name fs"
  shows "readStruct readValue t r =
      (case repN (length fs) readValue r of Inl e \<Rightarrow> Inl e
       | Inr (values, r') \<Rightarrow> Inr (Struct values t emptyHash, r'))
    \<and> (\<forall>v r'. readStruct readValue t r = Inr (v, r') \<longrightarrow>
         (\<exists>values. v = Struct values t emptyHash \<and> length values = length fs
            \<and> repN (length fs) readValue r = Inr (values, r')))"
proof -
  have eq: "readStruct readValue t r =
      (case repN (length fs) readValue r of Inl e \<Rightarrow> Inl e
       | Inr (values, r') \<Rightarrow> Inr (Struct values t emptyHash, r'))"
    using assms by (auto simp: readStruct_def bind_def pure_def forLoop_append split: sum.splits)
  show ?thesis
  proof (intro conjI allI impI)
    show "readStruct readValue t r =
      (case repN (length fs) readValue r of Inl e \<Rightarrow> Inl e
       | Inr (values, r') \<Rightarrow> Inr (Struct values t emptyHash, r'))" by (rule eq)
  next
    fix v r' assume "readStruct readValue t r = Inr (v, r')"
    with eq obtain vs where rep: "repN (length fs) readValue r = Inr (vs, r')"
      and v: "v = Struct vs t emptyHash"
      by (auto split: sum.splits)
    from rep have "length vs = length fs" by (rule repN_length)
    with rep v show "\<exists>values. v = Struct values t emptyHash \<and> length values = length fs
            \<and> repN (length fs) readValue r = Inr (values, r')" by blast
  qed
qed

theorem readStructType_fallback_witness:
  "readStructType readType
     (newValueDecoder [0, 0, 0, 1, 80, 0, 0, 0, 1, 0, 0, 0, 1, 120, 5, 1] \<lparr>fetched = []\<rparr> newTypeCache) =
   Inr (Type (StructDesc [80] [([120], Type (CompoundDesc ListKind [Type (PrimitiveDesc NumberKind) 1]) 256)]) 257,
        \<lparr>buff = [0, 0, 0, 1, 80, 0, 0, 0, 1, 0, 0, 0, 1, 120, 5, 1], offset = 16, vr = \<lparr>fetched = []\<rparr>,
         tc = \<lparr>entries =
           [((StructKind, [Ident [80], Ident [120], Num 256]),
             Type (StructDesc [80] [([120], Type (CompoundDesc ListKind [Type (PrimitiveDesc NumberKind) 1]) 256)]) 257),
            ((ListKind, [Num 1]), Type (CompoundDesc ListKind [Type (PrimitiveDesc NumberKind) 1]) 256)],
           nextId = 258\<rparr>\<rparr>)"
proof -
  let ?bs = "[0, 0, 0, 1, 80, 0, 0, 0, 1, 0, 0, 0, 1, 120, 5, 1] :: byte list"
  let ?r = "newValueDecoder ?bs \<lparr>fetched = []\<rparr> newTypeCache"
  let ?l = "Type (CompoundDesc ListKind [Type (PrimitiveDesc NumberKind) 1]) 256"
  let ?r' = "\<lparr>buff = ?bs, offset = 16, vr = \<lparr>fetched = []\<rparr>,
         tc = \<lparr>entries = [((ListKind, [Num 1]), ?l)], nextId = 257\<rparr>\<rparr>"
  have miss: "readCachedStructType readType ?r = Inr (None, ?r')"
    by code_simp
  have full: "bind readString (\<lambda>name.
     bind readUint32 (\<lambda>count.
     bind (forLoop (unat count)
             (\<lambda>(fieldNames, fieldTypes). bind readString (\<lambda>fn. bind readType (\<lambda>ft.
                pure (fieldNames @ [fn], fieldTypes @ [ft]))))
             ([], []))
       (\<lambda>(fieldNames, fieldTypes). withCache (makeStructType name fieldNames fieldTypes))))
     (seek (pos ?r) ?r') =
   Inr (Type (StructDesc [80] [([120], ?l)]) 257,
        \<lparr>buff = ?bs, offset = 16, vr = \<lparr>fetched = []\<rparr>,
         tc = \<lparr>entries =
           [((StructKind, [Ident [80], Ident [120], Num 256]), Type (StructDesc [80] [([120], ?l)]) 257),
            ((ListKind, [Num 1]), ?l)],
           nextId = 258\<rparr>\<rparr>)"
    by code_simp
  from readStructType_fallback [OF miss] full show ?thesis
    by (simp only:)
qed

theorem readMetaSequence_key_witness:
  "key (fst (projr (readMetaTuple readValue
      (newValueDecoder ([7, 0] @ replicate 20 5 @ [0, 0, 0, 0, 0, 0, 0, 2]
          @ [7, 0] @ replicate 20 6 @ [0, 0, 0, 0, 0, 0, 0, 1] @ [0, 0, 0, 0, 0, 0, 0, 3])
         \<lparr>fetched = []\<rparr> newTypeCache)))) = orderedKeyFromHash (replicate 20 6)"
proof -
  let ?bs = "[7, 0] @ replicate 20 5 @ [0, 0, 0, 0, 0, 0, 0, 2]
          @ [7, 0] @ replicate 20 6 @ [0, 0, 0, 0, 0, 0, 0, 1] @ [0, 0, 0, 0, 0, 0, 0, 3] :: byte list"
  let ?r = "newValueDecoder ?bs \<lparr>fetched = []\<rparr> newTypeCache"
  let ?t = "Type (CompoundDesc RefKind [Type (PrimitiveDesc BoolKind) 0]) 256"
  let ?c = "\<lparr>entries = [((RefKind, [Num 0]), ?t)], nextId = 257\<rparr>"
  let ?x = "RefValue (constructRef ?t (replicate 20 5) 2) :: Type Value"
  let ?rf = "constructRef ?t (replicate 20 6) 1"
  let ?rb = "\<lparr>buff = ?bs, offset = 30, vr = \<lparr>fetched = []\<rparr>, tc = ?c\<rparr>"
  let ?rc = "\<lparr>buff = ?bs, offset = 60, vr = \<lparr>fetched = []\<rparr>, tc = ?c\<rparr>"
  let ?rd = "\<lparr>buff = ?bs, offset = 68, vr = \<lparr>fetched = []\<rparr>, tc = ?c\<rparr>"
  let ?tup = "newMetaTuple (constructRef ?t (replicate 20 5) 2) (orderedKeyFromHash (replicate 20 6)) 3 (None :: Type Value option)"
  have 1: "readValue ?r = Inr (?x, ?rb)" by code_simp
  have 2: "readValue ?rb = Inr (RefValue ?rf, ?rc)" by code_simp
  have 3: "readMetaTuple readValue ?r = Inr (?tup, ?rd)" by code_simp
  from readMetaSequence_key [of ?r ?x ?rb "RefValue ?rf" ?rc ?tup ?rd] 1 2 3
  have "key ?tup = orderedKeyFromHash (TargetHash ?rf)" by blast
  then show ?thesis unfolding 3 by simp
qed

theorem readMetaSequence_ref_required_witness:
  "readMetaSequence readValue (newValueDecoder [0, 0, 0, 1, 0, 1] \<lparr>fetched = []\<rparr> newTypeCache)
     = Inl TypeAssertion"
proof -
  let ?bs = "[0, 0, 0, 1, 0, 1] :: byte list"
  let ?r = "newValueDecoder ?bs \<lparr>fetched = []\<rparr> newTypeCache"
  let ?ra = "\<lparr>buff = ?bs, offset = 4, vr = \<lparr>fetched = []\<rparr>, tc = newTypeCache\<rparr>"
  let ?r' = "\<lparr>buff = ?bs, offset = 6, vr = \<lparr>fetched = []\<rparr>, tc = newTypeCache\<rparr>"
  have 1: "readUint32 ?r = Inr (1, ?ra)" by code_simp
  have 2: "(0::nat) < unat (1 :: 32 word)" by simp
  have 3: "repN 0 (readMetaTuple readValue) ?ra = Inr ([], ?ra)" by simp
  have 4: "readValue ?ra = Inr (Bool True, ?r')" by code_simp
  have 5: "\<forall>rf. (Bool True :: Type Value) \<noteq> RefValue rf" by simp
  from readMetaSequence_ref_required [OF 1 2 3 4 5] show ?thesis .
qed

theorem readStruct_positional_witness:
  "readStruct readValue
     (Type (StructDesc [80] [([120], Type (PrimitiveDesc NumberKind) 1), ([121], Type (PrimitiveDesc BoolKind) 0)]) 256)
     (newValueDecoder [1, 0, 0, 0, 0, 0, 0, 0, 7, 0, 1] \<lparr>fetched = []\<rparr> newTypeCache) =
   Inr (Struct [Number 7, Bool True]
          (Type (StructDesc [80] [([120], Type (PrimitiveDesc NumberKind) 1), ([121], Type (PrimitiveDesc BoolKind) 0)]) 256)
          emptyHash,
        \<lparr>buff = [1, 0, 0, 0, 0, 0, 0, 0, 7, 0, 1], offset = 11, vr = \<lparr>fetched = []\<rparr>, tc = newTypeCache\<rparr>)"
proof -
  let ?bs = "[1, 0, 0, 0, 0, 0, 0, 0, 7, 0, 1] :: byte list"
  let ?fs = "[([120], Type (PrimitiveDesc NumberKind) 1), ([121], Type (PrimitiveDesc BoolKind) 0)] :: (gostring \<times> Type) list"
  let ?t = "Type (StructDesc [80] ?fs) 256"
  let ?r = "newValueDecoder ?bs \<lparr>fetched = []\<rparr> newTypeCache"
  have d: "Desc ?t = StructDesc [80] ?fs" by simp
  have rep: "repN (length ?fs) readValue ?r =
    Inr ([Number 7, Bool True], \<lparr>buff = ?bs, offset = 11, vr = \<lparr>fetched = []\<rparr>, tc = newTypeCache\<rparr>)"
    by code_simp
  from readStruct_positional [OF d, of ?r] have "readStruct readValue ?t ?r =
      (case repN (length ?fs) readValue ?r of Inl e \<Rightarrow> Inl e
       | Inr (values, r') \<Rightarrow> Inr (Struct values ?t emptyHash, r'))" by (rule conjunct1)
  then show ?thesis unfolding rep by simp
qed

subsection \<open>Digest text\<close>

lemma Parse_Some:
  assumes "Parse (tag @ ''-'' @ ds) = Some h"
  shows "tag = ''sha1'' \<and> length ds = 40 \<and> (\<forall>c\<in>set ds. isHexDigit c)"
proof -
  let ?s = "tag @ ''-'' @ ds"
  from assms have pre: "take 5 ?s = ''sha1-''" and len: "length (drop 5 ?s) = 40"
    and hex: "list_all isHexDigit (drop 5 ?s)"
    by (auto simp: Parse_def split: if_splits)
  have dash: "?s ! length tag = CHR ''-''" by (simp add: nth_append)
  have n4: "length tag = 4"
  proof (rule ccontr)
    assume ne: "length tag \<noteq> 4"
    show False
    proof (cases "length tag < 5")
      case True
      then have "take 5 ?s ! length tag = ?s ! length tag" by (rule nth_take)
      with dash have "take 5 ?s ! length tag = CHR ''-''" by (simp only:)
      with pre have "''sha1-'' ! length tag = CHR ''-''" by simp
      moreover from True ne have "length tag = 0 \<or> length tag = 1 \<or> length tag = 2 \<or> length tag = 3"
        by arith
      ultimately show False by (auto simp: numeral_eq_Suc)
    next
      case False
      have "drop 5 ?s ! (length tag - 5) = ?s ! (5 + (length tag - 5))"
        using False by (intro nth_drop) simp
      moreover from False have "5 + (length tag - 5) = length tag" by simp
      ultimately have "drop 5 ?s ! (length tag - 5) = ?s ! length tag" by (simp only:)
      with dash have "drop 5 ?s ! (length tag - 5) = CHR ''-''" by (simp only:)
      moreover from len False have "length tag - 5 < length (drop 5 ?s)" by simp
      ultimately have "isHexDigit (CHR ''-'')"
        using hex unfolding list_all_length by (auto simp only:)
      then show False by (simp add: isHexDigit_def)
    qed
  qed
  have "take 4 (take 5 ?s) = take 4 ?s" by (simp only: take_take) simp
  with pre have "take 4 ?s = take 4 ''sha1-''" by (simp only:)
  moreover from n4 have "take 4 ?s = tag" by simp
  ultimately have "tag = ''sha1''" by simp
  moreover from n4 have "drop 5 ?s = ds" by simp
  ultimately show ?thesis using len hex by (simp add: list_all_iff)
qed

text \<open>
  Claim C8.  \<open>Parse\<close> fails on a text whose algorithm tag is not sha1,
  whose digits are not 40, or which has a character that is not a hex digit,
  and on a text with no dash; sha1 followed by 40 zeros parses.
\<close>

theorem Parse_rejects:
  "(tag \<noteq> ''sha1'' \<or> length ds \<noteq> 40 \<or> (\<exists>c\<in>set ds. \<not> isHexDigit c) \<longrightarrow> Parse (tag @ ''-'' @ ds) = None)
   \<and> (CHR ''-'' \<notin> set s \<longrightarrow> Parse s = None)
   \<and> Parse (''sha1-'' @ replicate 40 (CHR ''0'')) = Some (replicate 20 0)"
proof (intro conjI impI)
  assume a: "tag \<noteq> ''sha1'' \<or> length ds \<noteq> 40 \<or> (\<exists>c\<in>set ds. \<not> isHexDigit c)"
  show "Parse (tag @ ''-'' @ ds) = None"
  proof (cases "Parse (tag @ ''-'' @ ds)")
    case None
    then show ?thesis .
  next
    case (Some h)
    from Parse_Some [OF Some] a show ?thesis by blast
  qed
next
  assume a: "CHR ''-'' \<notin> set s"
  have "take 5 s \<noteq> ''sha1-''"
  proof
    assume "take 5 s = ''sha1-''"
    then have "CHR ''-'' \<in> set (take 5 s)" by simp
    then have "CHR ''-'' \<in> set s" by (rule in_set_takeD)
    with a show False by simp
  qed
  then show "Parse s = None" by (simp add: Parse_def)
next
  show "Parse (''sha1-'' @ replicate 40 (CHR ''0'')) = Some (replicate 20 0)"
    by code_simp
qed

theorem Parse_rejects_witness:
  "Parse ''sha2-0000000000000000000000000000000000000000'' = None
   \<and> Parse ''sha1-0'' = None
   \<and> Parse ''sha1-00000000000000000000000000000000000000000'' = None
   \<and> Parse ''sha1-000000000000000000000000000000000000000g'' = None
   \<and> Parse ''foo'' = None"
proof -
  have 1: "Parse (''sha2'' @ ''-'' @ ''0000000000000000000000000000000000000000'') = None"
    using Parse_rejects [of "''sha2''" "''0000000000000000000000000000000000000000''" "''foo''"] by simp
  have 2: "Parse (''sha1'' @ ''-'' @ ''0'') = None"
    using Parse_rejects [of "''sha1''" "''0''" "''foo''"] by simp
  have 3: "Parse (''sha1'' @ ''-'' @ ''00000000000000000000000000000000000000000'') = None"
    using Parse_rejects [of "''sha1''" "''00000000000000000000000000000000000000000''" "''foo''"] by simp
  have 4: "Parse (''sha1'' @ ''-'' @ ''000000000000000000000000000000000000000g'') = None"
    using Parse_rejects [of "''sha1''" "''000000000000000000000000000000000000000g''" "''foo''"]
    by (simp add: isHexDigit_def)
  have 5: "Parse ''foo'' = None"
    using Parse_rejects [of "''sha1''" "''0''" "''foo''"] by simp
  from 1 2 3 4 5 show ?thesis by simp
qed

subsection \<open>One instance for one structure\<close>










lemma foldl_Traverse:
  "foldl (\<lambda>trie t. Traverse trie (Num (id_t t))) (k, p) ts = (k, p @ map (\<lambda>t. Num (id_t t)) ts)"
  by (induction ts arbitrary: p) auto

lemma foldl_Traverse_struct:
  "foldl (\<lambda>trie (fn, ft). Traverse (Traverse trie (Ident fn)) (Num (id_t ft))) (k, p) fs
     = (k, p @ structToks fs)"
  by (induction fs arbitrary: p) (auto simp: structToks_def)

lemma descNode_simps2 [simp]:
  "descNode (CompoundDesc k ts) = (k, map (\<lambda>t. Num (id_t t)) ts)"
  "descNode (StructDesc name fs) = (StructKind, Ident name # structToks fs)"
  "descNode (CycleDesc l) = (CycleKind, [Num (unat l)])"
  by (simp_all add: descNode.simps trieRoots_def foldl_Traverse foldl_Traverse_struct)

lemma structToks_simps [simp]:
  "structToks [] = []"
  "structToks ((fn, ft) # fs) = Ident fn # Num (id_t ft) # structToks fs"
  by (simp_all add: structToks_def)





























lemma bindE:
  assumes "bind m f s = Inr (y, s'')"
  obtains x s' where "m s = Inr (x, s')" "f x s' = Inr (y, s'')"
  using assms by (auto simp: bind_def split: sum.splits)



lemma tc_same_readRaw: "tc_same (readRaw n)"
  by (auto simp: tc_same_def readRaw_def split: if_splits)

lemma tc_same_pure: "tc_same (pure x)"
  by (simp add: tc_same_def pure_def)

lemma tc_same_bind: "tc_same m \<Longrightarrow> (\<And>x. tc_same (f x)) \<Longrightarrow> tc_same (bind m f)"
  unfolding tc_same_def by (metis bindE)

lemma tc_same_readUint8: "tc_same readUint8"
  unfolding readUint8_def by (intro tc_same_bind tc_same_readRaw tc_same_pure)


lemma tc_same_readUint64: "tc_same readUint64"
  unfolding readUint64_def by (intro tc_same_bind tc_same_readRaw tc_same_pure)

lemma tc_same_readBool: "tc_same readBool"
  unfolding readBool_def by (intro tc_same_bind tc_same_readUint8 tc_same_pure)



lemma tc_same_readHash: "tc_same readHash"
  unfolding readHash_def by (rule tc_same_readRaw)

lemma tc_same_readNumber: "tc_same readNumber"
  unfolding readNumber_def by (rule tc_same_readUint64)




















end
